theory Spec2Isabelle
  imports Main "HOL-Library.Word" "HOL-Library.Multiset"
begin

unbundle bit_operations_syntax

section \<open>Data model\<close>

text \<open>
  The engine works on python-chess boards. Piece types and colours are the library's
  enumerations (\<open>chess.WHITE\<close> is \<open>True\<close>); a square is one of the 64 indices
  \<open>0..63\<close> (a1 = 0, h8 = 63), a six-bit word here, so that every table lookup by square
  is in range.
\<close>

datatype piece_type = PAWN | KNIGHT | BISHOP | ROOK | QUEEN | KING

type_synonym square = "6 word"

record piece =
  piece_type :: piece_type
  color :: bool

record move =
  from_square :: square
  to_square :: square
  promotion :: "piece_type option"

text \<open>
  The board object itself (\<open>chess.Board\<close>) belongs to the rules library, which is not part
  of the repository. The engine only calls the methods below, so a board is a value of an
  arbitrary type \<open>'b\<close> together with this record of the methods the engine uses.
  \<open>pop\<close> yields \<open>None\<close> where the library raises IndexError (empty move stack);
  \<open>is_game_over\<close> is the call \<open>is_game_over(claim_draw = True)\<close>; \<open>board_hash\<close> is the
  value \<open>MiniMaxEngine._hash\<close> obtains from the board (transposition key, Zobrist hash or
  hash of the FEN, whichever the board offers); \<open>piece_map\<close> lists the items of the
  dictionary in iteration order.
\<close>

record 'b board_api =
  legal_moves :: "'b \<Rightarrow> move list"
  push :: "'b \<Rightarrow> move \<Rightarrow> 'b"
  pop :: "'b \<Rightarrow> 'b option"
  turn :: "'b \<Rightarrow> bool"
  is_check :: "'b \<Rightarrow> bool"
  is_checkmate :: "'b \<Rightarrow> bool"
  is_stalemate :: "'b \<Rightarrow> bool"
  is_insufficient_material :: "'b \<Rightarrow> bool"
  can_claim_draw :: "'b \<Rightarrow> bool"
  is_game_over :: "'b \<Rightarrow> bool"
  is_capture :: "'b \<Rightarrow> move \<Rightarrow> bool"
  piece_at :: "'b \<Rightarrow> square \<Rightarrow> piece option"
  piece_map :: "'b \<Rightarrow> (square \<times> piece) list"
  board_hash :: "'b \<Rightarrow> int"

section \<open>eval.py\<close>

fun PIECE_VALUES :: "piece_type \<Rightarrow> int" where
  "PIECE_VALUES PAWN = 100"
| "PIECE_VALUES KNIGHT = 300"
| "PIECE_VALUES BISHOP = 325"
| "PIECE_VALUES ROOK = 500"
| "PIECE_VALUES QUEEN = 900"
| "PIECE_VALUES KING = 0"

fun PIECE_SQUARE_TABLE :: "piece_type \<Rightarrow> int list" where
  "PIECE_SQUARE_TABLE PAWN = [
      0,  0,  0,  0,  0,  0,  0,  0,
     50, 50, 50, 50, 50, 50, 50, 50,
     10, 10, 20, 30, 30, 20, 10, 10,
      5,  5, 10, 25, 25, 10,  5,  5,
      0,  0,  0, 20, 20,  0,  0,  0,
      5, -5,-10,  0,  0,-10, -5,  5,
      5, 10, 10,-20,-20, 10, 10,  5,
      0,  0,  0,  0,  0,  0,  0,  0]"
| "PIECE_SQUARE_TABLE KNIGHT = [
    -50,-40,-30,-30,-30,-30,-40,-50,
    -40,-20,  0,  0,  0,  0,-20,-40,
    -30,  0, 10, 15, 15, 10,  0,-30,
    -30,  5, 15, 20, 20, 15,  5,-30,
    -30,  0, 15, 20, 20, 15,  0,-30,
    -30,  5, 10, 15, 15, 10,  5,-30,
    -40,-20,  0,  5,  5,  0,-20,-40,
    -50,-40,-30,-30,-30,-30,-40,-50]"
| "PIECE_SQUARE_TABLE BISHOP = [
    -20,-10,-10,-10,-10,-10,-10,-20,
    -10,  0,  0,  0,  0,  0,  0,-10,
    -10,  0,  5, 10, 10,  5,  0,-10,
    -10,  5,  5, 10, 10,  5,  5,-10,
    -10,  0, 10, 10, 10, 10,  0,-10,
    -10, 10, 10, 10, 10, 10, 10,-10,
    -10,  5,  0,  0,  0,  0,  5,-10,
    -20,-10,-10,-10,-10,-10,-10,-20]"
| "PIECE_SQUARE_TABLE ROOK = [
      0,  0,  0,  0,  0,  0,  0,  0,
      5, 10, 10, 10, 10, 10, 10,  5,
     -5,  0,  0,  0,  0,  0,  0, -5,
     -5,  0,  0,  0,  0,  0,  0, -5,
     -5,  0,  0,  0,  0,  0,  0, -5,
     -5,  0,  0,  0,  0,  0,  0, -5,
     -5,  0,  0,  0,  0,  0,  0, -5,
      0,  0,  0,  5,  5,  0,  0,  0]"
| "PIECE_SQUARE_TABLE QUEEN = [
    -20,-10,-10, -5, -5,-10,-10,-20,
    -10,  0,  0,  0,  0,  0,  0,-10,
    -10,  0,  5,  5,  5,  5,  0,-10,
     -5,  0,  5,  5,  5,  5,  0, -5,
      0,  0,  5,  5,  5,  5,  0, -5,
    -10,  5,  5,  5,  5,  5,  0,-10,
    -10,  0,  5,  0,  0,  0,  0,-10,
    -20,-10,-10, -5, -5,-10,-10,-20]"
| "PIECE_SQUARE_TABLE KING = [
    -30,-40,-40,-50,-50,-40,-40,-30,
    -30,-40,-40,-50,-50,-40,-40,-30,
    -30,-40,-40,-50,-50,-40,-40,-30,
    -30,-40,-40,-50,-50,-40,-40,-30,
    -20,-30,-30,-40,-40,-30,-30,-20,
    -10,-20,-20,-20,-20,-20,-20,-10,
     20, 20,  0,  0,  0,  0, 20, 20,
     20, 30, 10,  0,  0, 10, 30, 20]"

definition MATE_SCORE :: int where
  "MATE_SCORE = 10000"

definition DRAW_SCORE :: int where
  "DRAW_SCORE = 0"

text \<open>\<open>chess.square_mirror\<close> of the rules library: the square reflected vertically.\<close>

definition square_mirror :: "square \<Rightarrow> square" where
  "square_mirror sq = sq XOR 0x38"

definition pieceSquareTableValue :: "piece_type \<Rightarrow> square \<Rightarrow> bool \<Rightarrow> int" where
  "pieceSquareTableValue pt sq col =
     (let table = PIECE_SQUARE_TABLE pt;
          index = (if col then sq else square_mirror sq)
      in table ! unat index)"

text \<open>One pass of the loop over \<open>board.piece_map().items()\<close>.\<close>

definition add_piece :: "square \<times> piece \<Rightarrow> int \<Rightarrow> int" where
  "add_piece item score =
     (let sq = fst item; pc = snd item;
          val = PIECE_VALUES (piece_type pc) + pieceSquareTableValue (piece_type pc) sq (color pc)
      in score + (if color pc then val else - val))"

definition evaluate :: "'b board_api \<Rightarrow> 'b \<Rightarrow> int" where
  "evaluate B board =
     (if is_checkmate B board then (if turn B board then - MATE_SCORE else MATE_SCORE)
      else if is_stalemate B board \<or> is_insufficient_material B board \<or> can_claim_draw B board
        then DRAW_SCORE
      else
        let score = fold add_piece (piece_map B board) 0;
            mobility = int (length (legal_moves B board))
        in score + (if turn B board then mobility else - mobility))"

section \<open>engine.py\<close>

text \<open>
  The search bounds start as \<open>-math.inf\<close> and \<open>math.inf\<close> and are integers afterwards:
  a value of this type is an integer or one of the two float infinities. Python compares
  an integer with a float infinity exactly; \<open>max(a, b)\<close> is \<open>b\<close> where \<open>b > a\<close> and \<open>a\<close>
  otherwise, \<open>min(a, b)\<close> is \<open>b\<close> where \<open>b < a\<close> and \<open>a\<close> otherwise.
\<close>

datatype xint = NInf | Fin int | PInf

fun xlt :: "xint \<Rightarrow> xint \<Rightarrow> bool" where
  "xlt NInf NInf = False"
| "xlt NInf _ = True"
| "xlt (Fin a) (Fin b) = (a < b)"
| "xlt (Fin a) PInf = True"
| "xlt (Fin a) NInf = False"
| "xlt PInf _ = False"

definition xle :: "xint \<Rightarrow> xint \<Rightarrow> bool" where
  "xle a b = (a = b \<or> xlt a b)"

definition xmax :: "xint \<Rightarrow> xint \<Rightarrow> xint" where
  "xmax a b = (if xlt a b then b else a)"

definition xmin :: "xint \<Rightarrow> xint \<Rightarrow> xint" where
  "xmin a b = (if xlt b a then b else a)"

datatype error = OverflowError | IndexError

text \<open>\<open>int(x)\<close>: OverflowError on a float infinity.\<close>

fun to_int :: "xint \<Rightarrow> error + int" where
  "to_int (Fin v) = Inr v"
| "to_int NInf = Inl OverflowError"
| "to_int PInf = Inl OverflowError"

record SearchResult =
  score :: int
  move :: "move option"

subsection \<open>move\_ordering\<close>

text \<open>
  The sort key of one move. The board is pushed, asked for check and popped: the board
  after the call is returned beside the score.
\<close>

definition key :: "'b board_api \<Rightarrow> 'b \<Rightarrow> move \<Rightarrow> (error + int) \<times> 'b" where
  "key B board mv =
     (let score0 = 0;
          score1 =
            (if is_capture B board mv then
               let capturedPiece = piece_at B board (to_square mv);
                   attackingPiece = piece_at B board (from_square mv);
                   s1 = (case capturedPiece of
                           Some c \<Rightarrow> score0 + (10000 + PIECE_VALUES (piece_type c) * 10)
                         | None \<Rightarrow> score0)
               in (case attackingPiece of
                     Some a \<Rightarrow> s1 - PIECE_VALUES (piece_type a)
                   | None \<Rightarrow> s1)
             else score0);
          score2 =
            (case promotion mv of
               Some pt \<Rightarrow> score1 + (9000 + PIECE_VALUES pt)
             | None \<Rightarrow> score1);
          board1 = push B board mv;
          score3 = (if is_check B board1 then score2 + 500 else score2)
      in case pop B board1 of
           None \<Rightarrow> (Inl IndexError, board1)
         | Some board2 \<Rightarrow> (Inr score3, board2))"

text \<open>\<open>list.sort\<close> computes the key of every element first, in list order.\<close>

fun keys :: "'b board_api \<Rightarrow> 'b \<Rightarrow> move list \<Rightarrow> (error + int list) \<times> 'b" where
  "keys B board [] = (Inr [], board)"
| "keys B board (mv # rest) =
     (case key B board mv of
        (Inl err, board1) \<Rightarrow> (Inl err, board1)
      | (Inr k, board1) \<Rightarrow>
          (case keys B board1 rest of
             (Inl err, board2) \<Rightarrow> (Inl err, board2)
           | (Inr ks, board2) \<Rightarrow> (Inr (k # ks), board2)))"

text \<open>
  \<open>moves.sort(key = key, reverse = True)\<close>: Python's sort is stable, also with
  \<open>reverse = True\<close> (elements with equal keys keep their order), so it is the stable
  insertion sort on the negated key.
\<close>

definition sort_reverse :: "int list \<Rightarrow> move list \<Rightarrow> move list" where
  "sort_reverse ks moves = map snd (sort_key (\<lambda>km. - fst km) (zip ks moves))"

definition move_ordering :: "'b board_api \<Rightarrow> 'b \<Rightarrow> (error + move list) \<times> 'b" where
  "move_ordering B board =
     (let moves = legal_moves B board
      in case keys B board moves of
           (Inl err, board1) \<Rightarrow> (Inl err, board1)
         | (Inr ks, board1) \<Rightarrow> (Inr (sort_reverse ks moves), board1))"

subsection \<open>MiniMaxEngine\<close>

type_synonym cache_key = "int \<times> int \<times> bool"

record engine =
  tt :: "cache_key \<rightharpoonup> int"
  nodes :: int

text \<open>
  A call returns its value or the exception it raises, the engine and the board as the
  call leaves them. The recursion of \<open>minimax\<close> ends when \<open>depth\<close> reaches 0 or the game is
  over; for a negative \<open>depth\<close> on a game that goes on it does not end, so every call
  takes fuel (the number of nested calls it may make) and \<open>None\<close> is a search that ran
  out of it.
\<close>

type_synonym ('a, 'b) outcome = "((error + 'a) \<times> engine \<times> 'b) option"

definition cache_key_of :: "'b board_api \<Rightarrow> 'b \<Rightarrow> int \<Rightarrow> cache_key" where
  "cache_key_of B board depth = (board_hash B board, depth, turn B board)"

function (sequential) minimax :: "nat \<Rightarrow> 'b board_api \<Rightarrow> engine \<Rightarrow> 'b \<Rightarrow> int \<Rightarrow> xint \<Rightarrow> xint \<Rightarrow> (int, 'b) outcome"
  and loop_max :: "nat \<Rightarrow> 'b board_api \<Rightarrow> engine \<Rightarrow> 'b \<Rightarrow> int \<Rightarrow> xint \<Rightarrow> xint \<Rightarrow> xint \<Rightarrow> move list \<Rightarrow> (xint, 'b) outcome"
  and loop_min :: "nat \<Rightarrow> 'b board_api \<Rightarrow> engine \<Rightarrow> 'b \<Rightarrow> int \<Rightarrow> xint \<Rightarrow> xint \<Rightarrow> xint \<Rightarrow> move list \<Rightarrow> (xint, 'b) outcome"
where
  "minimax 0 B e board depth alpha beta = None"
| "minimax (Suc fuel) B e board depth alpha beta =
     (let e1 = e\<lparr>nodes := nodes e + 1\<rparr>;
          k = cache_key_of B board depth
      in case tt e1 k of
           Some v \<Rightarrow> Some (Inr v, e1, board)
         | None \<Rightarrow>
             if depth = 0 \<or> is_game_over B board then
               let val = evaluate B board
               in Some (Inr val, e1\<lparr>tt := (tt e1)(k \<mapsto> val)\<rparr>, board)
             else
               let r =
                 (if turn B board then
                    (case move_ordering B board of
                       (Inl err, board1) \<Rightarrow> Some (Inl err, e1, board1)
                     | (Inr moves, board1) \<Rightarrow>
                         loop_max fuel B e1 board1 depth NInf alpha beta moves)
                  else
                    (case move_ordering B board of
                       (Inl err, board1) \<Rightarrow> Some (Inl err, e1, board1)
                     | (Inr moves, board1) \<Rightarrow>
                         loop_min fuel B e1 board1 depth PInf alpha beta moves))
               in (case r of
                     None \<Rightarrow> None
                   | Some (Inl err, e2, board2) \<Rightarrow> Some (Inl err, e2, board2)
                   | Some (Inr best, e2, board2) \<Rightarrow>
                       (case to_int best of
                          Inl err \<Rightarrow> Some (Inl err, e2, board2)
                        | Inr v \<Rightarrow> Some (Inr v, e2\<lparr>tt := (tt e2)(k \<mapsto> v)\<rparr>, board2))))"
| "loop_max fuel B e board depth best alpha beta [] = Some (Inr best, e, board)"
| "loop_max fuel B e board depth best alpha beta (mv # rest) =
     (case minimax fuel B e (push B board mv) (depth - 1) alpha beta of
        None \<Rightarrow> None
      | Some (Inl err, e1, board1) \<Rightarrow> Some (Inl err, e1, board1)
      | Some (Inr val, e1, board1) \<Rightarrow>
          (case pop B board1 of
             None \<Rightarrow> Some (Inl IndexError, e1, board1)
           | Some board2 \<Rightarrow>
               let best1 = xmax best (Fin val);
                   alpha1 = xmax alpha best1
               in if xle beta alpha1 then Some (Inr best1, e1, board2)
                  else loop_max fuel B e1 board2 depth best1 alpha1 beta rest))"
| "loop_min fuel B e board depth best alpha beta [] = Some (Inr best, e, board)"
| "loop_min fuel B e board depth best alpha beta (mv # rest) =
     (case minimax fuel B e (push B board mv) (depth - 1) alpha beta of
        None \<Rightarrow> None
      | Some (Inl err, e1, board1) \<Rightarrow> Some (Inl err, e1, board1)
      | Some (Inr val, e1, board1) \<Rightarrow>
          (case pop B board1 of
             None \<Rightarrow> Some (Inl IndexError, e1, board1)
           | Some board2 \<Rightarrow>
               let best1 = xmin best (Fin val);
                   beta1 = xmin beta best1
               in if xle beta1 alpha then Some (Inr best1, e1, board2)
                  else loop_min fuel B e1 board2 depth best1 alpha beta1 rest))"

  by pat_completeness auto

termination
  by (relation "inv_image (less_than <*lex*> less_than) (\<lambda>x. case x of
        Inl (fuel, B, e, board, depth, alpha, beta) \<Rightarrow> (fuel, 0)
      | Inr (Inl (fuel, B, e, board, depth, best, alpha, beta, moves)) \<Rightarrow>
          (fuel, Suc (length moves))
      | Inr (Inr (fuel, B, e, board, depth, best, alpha, beta, moves)) \<Rightarrow>
          (fuel, Suc (length moves)))") auto

text \<open>The two loops of \<open>best_move\<close>, with the running \<open>best_score\<close> and \<open>best_move\<close>.\<close>

fun root_loop_white :: "nat \<Rightarrow> 'b board_api \<Rightarrow> engine \<Rightarrow> 'b \<Rightarrow> int \<Rightarrow> xint \<Rightarrow> move option \<Rightarrow> move list \<Rightarrow> (xint \<times> move option, 'b) outcome" where
  "root_loop_white fuel B e board depth best_score best_mv [] =
     Some (Inr (best_score, best_mv), e, board)"
| "root_loop_white fuel B e board depth best_score best_mv (mv # rest) =
     (case minimax fuel B e (push B board mv) (depth - 1) NInf PInf of
        None \<Rightarrow> None
      | Some (Inl err, e1, board1) \<Rightarrow> Some (Inl err, e1, board1)
      | Some (Inr sc, e1, board1) \<Rightarrow>
          (case pop B board1 of
             None \<Rightarrow> Some (Inl IndexError, e1, board1)
           | Some board2 \<Rightarrow>
               if xlt best_score (Fin sc)
               then root_loop_white fuel B e1 board2 depth (Fin sc) (Some mv) rest
               else root_loop_white fuel B e1 board2 depth best_score best_mv rest))"

fun root_loop_black :: "nat \<Rightarrow> 'b board_api \<Rightarrow> engine \<Rightarrow> 'b \<Rightarrow> int \<Rightarrow> xint \<Rightarrow> move option \<Rightarrow> move list \<Rightarrow> (xint \<times> move option, 'b) outcome" where
  "root_loop_black fuel B e board depth best_score best_mv [] =
     Some (Inr (best_score, best_mv), e, board)"
| "root_loop_black fuel B e board depth best_score best_mv (mv # rest) =
     (case minimax fuel B e (push B board mv) (depth - 1) NInf PInf of
        None \<Rightarrow> None
      | Some (Inl err, e1, board1) \<Rightarrow> Some (Inl err, e1, board1)
      | Some (Inr sc, e1, board1) \<Rightarrow>
          (case pop B board1 of
             None \<Rightarrow> Some (Inl IndexError, e1, board1)
           | Some board2 \<Rightarrow>
               if xlt (Fin sc) best_score
               then root_loop_black fuel B e1 board2 depth (Fin sc) (Some mv) rest
               else root_loop_black fuel B e1 board2 depth best_score best_mv rest))"

definition best_move :: "nat \<Rightarrow> 'b board_api \<Rightarrow> engine \<Rightarrow> 'b \<Rightarrow> int \<Rightarrow> (SearchResult, 'b) outcome" where
  "best_move fuel B e board depth =
     (let e0 = e\<lparr>nodes := 0\<rparr>;
          r =
            (if turn B board then
               (case move_ordering B board of
                  (Inl err, board1) \<Rightarrow> Some (Inl err, e0, board1)
                | (Inr moves, board1) \<Rightarrow>
                    root_loop_white fuel B e0 board1 depth NInf None moves)
             else
               (case move_ordering B board of
                  (Inl err, board1) \<Rightarrow> Some (Inl err, e0, board1)
                | (Inr moves, board1) \<Rightarrow>
                    root_loop_black fuel B e0 board1 depth PInf None moves))
      in case r of
           None \<Rightarrow> None
         | Some (Inl err, e1, board1) \<Rightarrow> Some (Inl err, e1, board1)
         | Some (Inr (best_score, best_mv), e1, board1) \<Rightarrow>
             (case to_int best_score of
                Inl err \<Rightarrow> Some (Inl err, e1, board1)
              | Inr s \<Rightarrow> Some (Inr \<lparr>score = s, move = best_mv\<rparr>, e1, board1)))"

section \<open>Plain minimax, contracts of the rules library, sample games\<close>

text \<open>
  The reference of the refinement claim, written from the specification's words: a
  depth-limited minimax with no pruning and no cache, on the same \<open>evaluate\<close>. White
  maximises from minus infinity, Black minimises from plus infinity.
\<close>

fun plain_minimax :: "'b board_api \<Rightarrow> 'b \<Rightarrow> nat \<Rightarrow> xint" where
  "plain_minimax B board 0 = Fin (evaluate B board)"
| "plain_minimax B board (Suc d) =
     (if is_game_over B board then Fin (evaluate B board)
      else if turn B board then
        foldl xmax NInf (map (\<lambda>m. plain_minimax B (push B board m) d) (legal_moves B board))
      else
        foldl xmin PInf (map (\<lambda>m. plain_minimax B (push B board m) d) (legal_moves B board)))"

text \<open>
  What the specification requires of the rules library: unmake after make restores the
  board exactly; and what chess guarantees: a position without a legal move is checkmate
  or stalemate, so the game is over.
\<close>

definition undo_ok :: "'b board_api \<Rightarrow> bool" where
  "undo_ok B = (\<forall>board mv. pop B (push B board mv) = Some board)"

definition moves_or_over :: "'b board_api \<Rightarrow> bool" where
  "moves_or_over B = (\<forall>board. legal_moves B board = [] \<longrightarrow> is_game_over B board)"

text \<open>The heuristic score of a move: the integer \<open>key\<close> returns.\<close>

definition key_score :: "'b board_api \<Rightarrow> 'b \<Rightarrow> move \<Rightarrow> int" where
  "key_score B board mv = (case fst (key B board mv) of Inr s \<Rightarrow> s | Inl err \<Rightarrow> 0)"

text \<open>
  Colour-swapped mirror images: the pieces of the second board are those of the first,
  each on the vertically reflected square with the other colour; the other side is to
  move; the terminal classification and the number of legal moves are the same.
\<close>

definition mirror_piece :: "square \<times> piece \<Rightarrow> square \<times> piece" where
  "mirror_piece item = (square_mirror (fst item), (snd item)\<lparr>color := \<not> color (snd item)\<rparr>)"

definition mirror_image :: "'b board_api \<Rightarrow> 'b \<Rightarrow> 'b \<Rightarrow> bool" where
  "mirror_image B b1 b2 =
     (mset (piece_map B b2) = image_mset mirror_piece (mset (piece_map B b1))
      \<and> turn B b2 = (\<not> turn B b1)
      \<and> is_checkmate B b2 = is_checkmate B b1
      \<and> is_stalemate B b2 = is_stalemate B b1
      \<and> is_insufficient_material B b2 = is_insufficient_material B b1
      \<and> can_claim_draw B b2 = can_claim_draw B b1
      \<and> length (legal_moves B b2) = length (legal_moves B b1))"

subsection \<open>Games given by tables\<close>

text \<open>
  A board for the examples: the number of the current position and the stack of the
  positions before it. The rules are tables indexed by the position number: the legal
  moves, the successor position, the side to move, whether the side to move is in check,
  which moves capture, and the pieces. A position without legal moves is checkmate when
  in check and stalemate otherwise.
\<close>

type_synonym table_board = "nat \<times> nat list"

definition table_api ::
  "(nat \<Rightarrow> move list) \<Rightarrow> (nat \<Rightarrow> move \<Rightarrow> nat) \<Rightarrow> (nat \<Rightarrow> bool) \<Rightarrow> (nat \<Rightarrow> bool)
     \<Rightarrow> (nat \<Rightarrow> move \<Rightarrow> bool) \<Rightarrow> (nat \<Rightarrow> (square \<times> piece) list) \<Rightarrow> table_board board_api" where
  "table_api moves succ white check capture pieces =
     \<lparr> legal_moves = (\<lambda>b. moves (fst b)),
       push = (\<lambda>b m. (succ (fst b) m, fst b # snd b)),
       pop = (\<lambda>b. case snd b of [] \<Rightarrow> None | p # ps \<Rightarrow> Some (p, ps)),
       turn = (\<lambda>b. white (fst b)),
       is_check = (\<lambda>b. check (fst b)),
       is_checkmate = (\<lambda>b. moves (fst b) = [] \<and> check (fst b)),
       is_stalemate = (\<lambda>b. moves (fst b) = [] \<and> \<not> check (fst b)),
       is_insufficient_material = (\<lambda>b. False),
       can_claim_draw = (\<lambda>b. False),
       is_game_over = (\<lambda>b. moves (fst b) = []),
       is_capture = (\<lambda>b m. capture (fst b) m),
       piece_at = (\<lambda>b sq. map_of (pieces (fst b)) sq),
       piece_map = (\<lambda>b. pieces (fst b)),
       board_hash = (\<lambda>b. int (fst b)) \<rparr>"

definition quiet :: "nat \<Rightarrow> nat \<Rightarrow> move" where
  "quiet a b = \<lparr>from_square = of_nat a, to_square = of_nat b, promotion = None\<rparr>"

definition new_engine :: engine where
  "new_engine = \<lparr>tt = Map.empty, nodes = 0\<rparr>"

definition W :: "piece_type \<Rightarrow> piece" where
  "W pt = \<lparr>piece_type = pt, color = True\<rparr>"

definition Bl :: "piece_type \<Rightarrow> piece" where
  "Bl pt = \<lparr>piece_type = pt, color = False\<rparr>"

text \<open>
  A game with a transposition. Position 0 (White) has the moves to 1 and 2 (Black);
  1 has the moves to 3 and 4 (White), 2 only the move to 4; 3 has the move to 5, and 4
  the moves to 6 and 7. In 5, 6 and 7 Black is to move and has two moves; the kings are
  on e1 and e8, and White has a pawn on a2 in 5, a rook on a1 in 6, a queen on d1 in 7.
  A move to square k leads to position k. Every other position has no legal move.
\<close>

definition t_moves :: "nat \<Rightarrow> move list" where
  "t_moves p =
     (if p = 0 then [quiet 0 1, quiet 0 2]
      else if p = 1 then [quiet 1 3, quiet 1 4]
      else if p = 2 then [quiet 2 4]
      else if p = 3 then [quiet 3 5]
      else if p = 4 then [quiet 4 6, quiet 4 7]
      else if p = 5 \<or> p = 6 \<or> p = 7 then [quiet 60 59, quiet 60 61]
      else [])"

definition t_succ :: "nat \<Rightarrow> move \<Rightarrow> nat" where
  "t_succ p m = unat (to_square m)"

definition t_white :: "nat \<Rightarrow> bool" where
  "t_white p = (p = 0 \<or> p = 3 \<or> p = 4)"

definition t_pieces :: "nat \<Rightarrow> (square \<times> piece) list" where
  "t_pieces p =
     [(60, Bl KING), (4, W KING)] @
     (if p = 5 then [(8, W PAWN)]
      else if p = 6 then [(0, W ROOK)]
      else if p = 7 then [(3, W QUEEN)]
      else [])"

definition tgame :: "table_board board_api" where
  "tgame = table_api t_moves t_succ t_white (\<lambda>p. False) (\<lambda>p m. False) t_pieces"

text \<open>
  Finished games. Position 0: White is to move, in check, and has no move (back-rank
  mate: Kg1, pawns f2 g2 h2, black rook e1, black king g8). Position 1: Black is to
  move, not in check, and has no move (stalemate: Kh8 against Kg6 and Qf7). Positions
  2 and 3 are mirror images with two legal moves each: kings on e1 and e8 and a white
  pawn on a2 with Black to move, a black pawn on a7 with White to move.
\<close>

definition e_moves :: "nat \<Rightarrow> move list" where
  "e_moves p =
     (if p = 2 then [quiet 60 59, quiet 60 61]
      else if p = 3 then [quiet 4 3, quiet 4 5]
      else [])"

definition e_pieces :: "nat \<Rightarrow> (square \<times> piece) list" where
  "e_pieces p =
     (if p = 0 then [(62, Bl KING), (15, W PAWN), (14, W PAWN), (13, W PAWN), (6, W KING), (4, Bl ROOK)]
      else if p = 1 then [(63, Bl KING), (53, W QUEEN), (46, W KING)]
      else if p = 2 then [(60, Bl KING), (8, W PAWN), (4, W KING)]
      else if p = 3 then [(60, Bl KING), (48, Bl PAWN), (4, W KING)]
      else [])"

definition endings :: "table_board board_api" where
  "endings = table_api e_moves t_succ (\<lambda>p. p = 0 \<or> p = 3) (\<lambda>p. p = 0) (\<lambda>p m. False) e_pieces"

text \<open>
  A position for the move ordering. White: Kg1, Qd1, pawns b7 and e5; Black: Kh8 and a
  pawn on d5 that has just advanced two squares. The table lists four of its moves, in
  this order: Kh1 (quiet), exd6 en passant (a capture with an empty destination square),
  Qxd5 (queen takes pawn) and b8=Q (a promotion that gives check and captures nothing).
\<close>

definition Kh1 :: move where
  "Kh1 = \<lparr>from_square = 6, to_square = 7, promotion = None\<rparr>"

definition exd6 :: move where
  "exd6 = \<lparr>from_square = 36, to_square = 43, promotion = None\<rparr>"

definition Qxd5 :: move where
  "Qxd5 = \<lparr>from_square = 3, to_square = 35, promotion = None\<rparr>"

definition b8Q :: move where
  "b8Q = \<lparr>from_square = 49, to_square = 57, promotion = Some QUEEN\<rparr>"

definition o_pieces :: "nat \<Rightarrow> (square \<times> piece) list" where
  "o_pieces p =
     (if p = 0 then [(63, Bl KING), (49, W PAWN), (36, W PAWN), (35, Bl PAWN), (6, W KING), (3, W QUEEN)]
      else [])"

definition ogame :: "table_board board_api" where
  "ogame = table_api (\<lambda>p. if p = 0 then [Kh1, exd6, Qxd5, b8Q] else [quiet 63 62]) t_succ
     (\<lambda>p. p = 0) (\<lambda>p. p = 57) (\<lambda>p m. p = 0 \<and> (m = exd6 \<or> m = Qxd5)) o_pieces"

text \<open>
  A second position for the move ordering. White: Kg1, pawns b7 and c4; Black: Kh8 and
  a pawn on d5. The table lists two of its moves: b8=Q (a promotion that gives check and
  captures nothing) and cxd5 (pawn takes pawn).
\<close>

definition cxd5 :: move where
  "cxd5 = \<lparr>from_square = 26, to_square = 35, promotion = None\<rparr>"

definition pgame :: "table_board board_api" where
  "pgame = table_api (\<lambda>p. if p = 0 then [b8Q, cxd5] else [quiet 63 62]) t_succ
     (\<lambda>p. p = 0) (\<lambda>p. p = 57) (\<lambda>p m. p = 0 \<and> m = cxd5)
     (\<lambda>p. if p = 0 then [(63, Bl KING), (49, W PAWN), (35, Bl PAWN), (26, W PAWN), (6, W KING)]
          else [])"

subsection \<open>Sequences of calls on one engine\<close>

text \<open>
  A client that calls \<open>minimax\<close> and \<open>best_move\<close> on one engine instance, one call after
  the other, each on a board of its own choice; a call that raises leaves the engine as
  it is at that moment, and the next call goes on from there.
\<close>

datatype 'b call = Minimax 'b int xint xint | BestMove 'b int

fun run_call :: "nat \<Rightarrow> 'b board_api \<Rightarrow> engine \<Rightarrow> 'b call \<Rightarrow> engine option" where
  "run_call fuel B e (Minimax board depth alpha beta) =
     map_option (\<lambda>r. fst (snd r)) (minimax fuel B e board depth alpha beta)"
| "run_call fuel B e (BestMove board depth) =
     map_option (\<lambda>r. fst (snd r)) (best_move fuel B e board depth)"

fun run_calls :: "nat \<Rightarrow> 'b board_api \<Rightarrow> engine \<Rightarrow> 'b call list \<Rightarrow> engine option" where
  "run_calls fuel B e [] = Some e"
| "run_calls fuel B e (c # cs) =
     (case run_call fuel B e c of
        None \<Rightarrow> None
      | Some e1 \<Rightarrow> run_calls fuel B e1 cs)"

text \<open>
  The cache of \<open>e2\<close> extends that of \<open>e1\<close>, and differs from it only at keys of depth
  at most \<open>d\<close>.
\<close>

definition cache_grows :: "int \<Rightarrow> engine \<Rightarrow> engine \<Rightarrow> bool" where
  "cache_grows d e1 e2 =
     ((\<forall>k v. tt e1 k = Some v \<longrightarrow> tt e2 k = Some v)
      \<and> (\<forall>k. tt e2 k \<noteq> tt e1 k \<longrightarrow> fst (snd k) \<le> d))"

text \<open>
  The engine after one search of the transposition game from position 0 to depth 3,
  started with an empty cache.
\<close>

definition primed_engine :: engine where
  "primed_engine =
     (case minimax 4 tgame new_engine (0, []) 3 NInf PInf of
        Some (r, e, b) \<Rightarrow> e
      | None \<Rightarrow> new_engine)"

section \<open>The evaluator\<close>

lemma square_mirror_twice: "square_mirror (square_mirror sq) = sq"
  by (simp add: square_mirror_def xor.assoc)

lemma add_piece_shift: "add_piece item s = s + add_piece item 0"
  by (simp add: add_piece_def Let_def)

lemma fold_add_piece: "fold add_piece xs s = s + sum_list (map (\<lambda>item. add_piece item 0) xs)"
proof (induction xs arbitrary: s)
  case Nil
  show ?case by simp
next
  case (Cons x xs)
  show ?case
    using add_piece_shift [of x s] by (simp add: Cons.IH)
qed

lemma add_piece_mirror: "add_piece (mirror_piece item) 0 = - add_piece item 0"
  by (simp add: add_piece_def mirror_piece_def pieceSquareTableValue_def
      Let_def square_mirror_twice)

lemma material_mset:
  "fold add_piece xs 0 = sum_mset (image_mset (\<lambda>item. add_piece item 0) (mset xs))"
  by (simp add: fold_add_piece sum_mset_sum_list [symmetric])

lemma sum_mset_negated:
  "sum_mset (image_mset (\<lambda>item. - add_piece item 0) M) =
   - sum_mset (image_mset (\<lambda>item. add_piece item 0) M)"
  by (induction M) simp_all

lemma material_mirror:
  assumes "mset ys = image_mset mirror_piece (mset xs)"
  shows "fold add_piece ys 0 = - fold add_piece xs 0"
proof -
  have "fold add_piece ys 0 =
      sum_mset (image_mset (\<lambda>item. add_piece item 0) (image_mset mirror_piece (mset xs)))"
    using assms by (simp add: material_mset)
  also have "\<dots> = sum_mset (image_mset (\<lambda>item. - add_piece item 0) (mset xs))"
    by (simp add: multiset.map_comp comp_def add_piece_mirror)
  also have "\<dots> = - sum_mset (image_mset (\<lambda>item. add_piece item 0) (mset xs))"
    by (rule sum_mset_negated)
  finally show ?thesis by (simp add: material_mset)
qed

text \<open>
  C5. On a checkmated board \<open>evaluate\<close> returns the mate score against the side to move:
  \<open>-MATE_SCORE\<close> when White is to move, \<open>MATE_SCORE\<close> when Black is, with
  \<open>MATE_SCORE = 10000\<close>. On a board that is not checkmate and is a stalemate, has
  insufficient material or allows a draw claim, it returns exactly 0, whatever pieces
  are on the board. Both are decided before any piece is counted.
\<close>

theorem evaluate_terminal:
  "(is_checkmate B board \<longrightarrow>
      evaluate B board = (if turn B board then - MATE_SCORE else MATE_SCORE)
      \<and> MATE_SCORE = 10000)
   \<and> (\<not> is_checkmate B board
        \<and> (is_stalemate B board \<or> is_insufficient_material B board \<or> can_claim_draw B board)
      \<longrightarrow> evaluate B board = 0)"
  by (simp add: evaluate_def MATE_SCORE_def DRAW_SCORE_def)

theorem evaluate_terminal_witness:
  "is_checkmate endings (0, []) \<and> turn endings (0, []) \<and> evaluate endings (0, []) = - 10000
   \<and> \<not> is_checkmate endings (1, []) \<and> is_stalemate endings (1, [])
   \<and> fold add_piece (piece_map endings (1, [])) 0 \<noteq> 0
   \<and> evaluate endings (1, []) = 0"
proof -
  have mate: "is_checkmate endings (0, [])" and white: "turn endings (0, [])"
    by (simp_all add: endings_def table_api_def e_moves_def)
  have stale: "\<not> is_checkmate endings (1, [])" "is_stalemate endings (1, [])"
    by (simp_all add: endings_def table_api_def e_moves_def)
  have material: "fold add_piece (piece_map endings (1, [])) 0 \<noteq> 0"
    by code_simp
  have "evaluate endings (0, []) = - 10000"
    using evaluate_terminal [of endings "(0, [])"] mate white by simp
  moreover have "evaluate endings (1, []) = 0"
    using evaluate_terminal [of endings "(1, [])"] stale by simp
  ultimately show ?thesis
    using mate white stale material by simp
qed

text \<open>
  C6. If one board is the colour-swapped mirror image of another (the same pieces on
  the vertically reflected squares with colours reversed, the other side to move, the
  same terminal classification and the same number of legal moves), \<open>evaluate\<close> on it
  is the exact negation of \<open>evaluate\<close> on the other.
\<close>

theorem evaluate_mirror:
  "mirror_image B b1 b2 \<Longrightarrow> evaluate B b2 = - evaluate B b1"
  unfolding mirror_image_def evaluate_def
  by (auto simp: Let_def MATE_SCORE_def DRAW_SCORE_def dest!: material_mirror)

theorem evaluate_mirror_witness:
  "mirror_image endings (2, []) (3, [])
   \<and> evaluate endings (2, []) = 148 \<and> evaluate endings (3, []) = - 148"
proof -
  have m: "mirror_image endings (2, []) (3, [])"
    by (simp add: mirror_image_def endings_def table_api_def e_moves_def e_pieces_def
        mirror_piece_def square_mirror_def W_def Bl_def)
  have v: "evaluate endings (2, []) = 148"
    by code_simp
  show ?thesis
    using m v evaluate_mirror [OF m] by simp
qed

section \<open>Move ordering\<close>


lemma key_undo:
  "undo_ok B \<Longrightarrow> key B board mv = (Inr (key_score B board mv), board)"
  by (simp add: key_def key_score_def undo_ok_def Let_def)

lemma keys_undo:
  "undo_ok B \<Longrightarrow> keys B board ms = (Inr (map (key_score B board) ms), board)"
  by (induction ms) (simp_all add: key_undo)

lemma insort_key_tagged:
  "insort_key (\<lambda>km. - fst km) (f x, x) (map (\<lambda>m. (f m, m)) ys) =
   map (\<lambda>m. (f m, m)) (insort_key (\<lambda>m. - f m) x ys)"
  by (induction ys) simp_all

lemma sort_key_tagged:
  "sort_key (\<lambda>km. - fst km) (map (\<lambda>m. (f m, m)) xs) =
   map (\<lambda>m. (f m, m)) (sort_key (\<lambda>m. - f m) xs)"
  by (induction xs) (simp_all add: insort_key_tagged)

lemma sort_reverse_eq:
  "sort_reverse (map f ms) ms = sort_key (\<lambda>m. - (f m :: int)) ms"
proof -
  have "zip (map f ms) ms = map (\<lambda>m. (f m, m)) ms"
    by (induction ms) simp_all
  then show ?thesis
    by (simp add: sort_reverse_def sort_key_tagged comp_def)
qed

lemma move_ordering_undo:
  "undo_ok B \<Longrightarrow>
   move_ordering B board =
     (Inr (sort_key (\<lambda>m. - key_score B board m) (legal_moves B board)), board)"
  by (simp add: move_ordering_def keys_undo sort_reverse_eq)

lemma sorted_descending:
  "sorted_wrt (\<lambda>a b. f b \<le> (f a :: int)) (sort_key (\<lambda>m. - f m) ms)"
proof -
  have "sorted (map (\<lambda>m. - f m) (sort_key (\<lambda>m. - f m) ms))"
    by (rule sorted_sort_key)
  then show ?thesis
    by (simp add: sorted_map)
qed

lemma stable_descending:
  "filter (\<lambda>m. f m = (k::int)) (sort_key (\<lambda>m. - f m) ms) = filter (\<lambda>m. f m = k) ms"
  using sort_key_stable [of "\<lambda>m. - f m" "- k" ms] by simp

lemma table_undo_ok: "undo_ok (table_api moves succ white check capture pieces)"
  by (simp add: undo_ok_def table_api_def)

lemma table_moves_or_over: "moves_or_over (table_api moves succ white check capture pieces)"
  by (simp add: moves_or_over_def table_api_def)



lemma capture_score:
  assumes "undo_ok B" "is_capture B board cap"
    "piece_at B board (to_square cap) = Some c"
    "piece_at B board (from_square cap) = Some a"
  shows "key_score B board cap =
     10000 + 10 * PIECE_VALUES (piece_type c) - PIECE_VALUES (piece_type a)
     + (case promotion cap of Some pt \<Rightarrow> 9000 + PIECE_VALUES pt | None \<Rightarrow> 0)
     + (if is_check B (push B board cap) then 500 else 0)"
  using assms
  by (simp add: key_score_def key_def undo_ok_def Let_def split: option.splits)

lemma quiet_score:
  assumes "undo_ok B" "\<not> is_capture B board mv"
  shows "key_score B board mv =
     (case promotion mv of Some pt \<Rightarrow> 9000 + PIECE_VALUES pt | None \<Rightarrow> 0)
     + (if is_check B (push B board mv) then 500 else 0)"
  using assms
  by (simp add: key_score_def key_def undo_ok_def Let_def split: option.splits)

lemma PIECE_VALUES_bounds: "0 \<le> PIECE_VALUES pt \<and> PIECE_VALUES pt \<le> 900"
  by (cases pt) simp_all

lemma PIECE_VALUES_not_king: "pt \<noteq> KING \<Longrightarrow> 100 \<le> PIECE_VALUES pt"
  by (cases pt) simp_all

lemma PIECE_VALUES_not_queen: "pt \<noteq> QUEEN \<Longrightarrow> PIECE_VALUES pt \<le> 500"
  by (cases pt) simp_all

lemma capture_beats_quiet:
  assumes u: "undo_ok B" and cap: "is_capture B board cap"
    and c: "piece_at B board (to_square cap) = Some c"
    and a: "piece_at B board (from_square cap) = Some a"
    and k: "piece_type c \<noteq> KING"
    and q: "\<not> is_capture B board mv"
    and p: "promotion mv \<noteq> Some QUEEN \<or> \<not> is_check B (push B board mv)"
  shows "key_score B board mv < key_score B board cap"
proof -
  have c100: "100 \<le> PIECE_VALUES (piece_type c)"
    by (rule PIECE_VALUES_not_king [OF k])
  have a900: "PIECE_VALUES (piece_type a) \<le> 900"
    using PIECE_VALUES_bounds [of "piece_type a"] by simp
  have promo_cap: "0 \<le> (case promotion cap of Some pt \<Rightarrow> 9000 + PIECE_VALUES pt | None \<Rightarrow> 0)"
    using PIECE_VALUES_bounds by (cases "promotion cap") simp_all
  have "10100 \<le> key_score B board cap"
    using capture_score [OF u cap c a] c100 a900 promo_cap
    by (simp split: if_splits)
  moreover have "key_score B board mv < 10100"
  proof (cases "promotion mv")
    case None
    then show ?thesis using quiet_score [OF u q] by simp
  next
    case (Some pt)
    show ?thesis
    proof (cases "pt = QUEEN")
      case True
      then have "\<not> is_check B (push B board mv)" using p Some by simp
      then show ?thesis using quiet_score [OF u q] Some True by simp
    next
      case False
      then have "PIECE_VALUES pt \<le> 500" by (rule PIECE_VALUES_not_queen)
      then show ?thesis using quiet_score [OF u q] Some by simp
    qed
  qed
  ultimately show ?thesis by simp
qed

lemma PIECE_VALUES_minor: "pt \<noteq> KING \<Longrightarrow> pt \<noteq> PAWN \<Longrightarrow> 300 \<le> PIECE_VALUES pt"
  by (cases pt) simp_all

lemma quiet_score_bound:
  assumes u: "undo_ok B" and q: "\<not> is_capture B board mv"
  shows "key_score B board mv \<le> 10400"
proof (cases "promotion mv")
  case None
  then show ?thesis using quiet_score [OF u q] by simp
next
  case (Some pt)
  have "PIECE_VALUES pt \<le> 900" using PIECE_VALUES_bounds [of pt] by simp
  then show ?thesis using quiet_score [OF u q] Some by simp
qed

lemma capture_beats_every_quiet:
  assumes u: "undo_ok B" and cap: "is_capture B board cap"
    and c: "piece_at B board (to_square cap) = Some c"
    and a: "piece_at B board (from_square cap) = Some a"
    and k: "piece_type c \<noteq> KING"
    and q: "\<not> is_capture B board mv"
    and p: "piece_type c \<noteq> PAWN \<or> piece_type a \<noteq> QUEEN \<or> promotion cap \<noteq> None
        \<or> is_check B (push B board cap)
        \<or> promotion mv \<noteq> Some QUEEN \<or> \<not> is_check B (push B board mv)"
  shows "key_score B board mv < key_score B board cap"
proof -
  have c100: "100 \<le> PIECE_VALUES (piece_type c)"
    by (rule PIECE_VALUES_not_king [OF k])
  have a900: "PIECE_VALUES (piece_type a) \<le> 900"
    using PIECE_VALUES_bounds [of "piece_type a"] by simp
  have promo_cap: "0 \<le> (case promotion cap of Some pt \<Rightarrow> 9000 + PIECE_VALUES pt | None \<Rightarrow> 0)"
    using PIECE_VALUES_bounds by (cases "promotion cap") simp_all
  have sc: "key_score B board cap =
     10000 + 10 * PIECE_VALUES (piece_type c) - PIECE_VALUES (piece_type a)
     + (case promotion cap of Some pt \<Rightarrow> 9000 + PIECE_VALUES pt | None \<Rightarrow> 0)
     + (if is_check B (push B board cap) then 500 else 0)"
    by (rule capture_score [OF u cap c a])
  have top: "key_score B board mv \<le> 10400"
    by (rule quiet_score_bound [OF u q])
  consider (victim) "piece_type c \<noteq> PAWN" | (attacker) "piece_type a \<noteq> QUEEN"
    | (promo) "promotion cap \<noteq> None" | (check) "is_check B (push B board cap)"
    | (other) "promotion mv \<noteq> Some QUEEN \<or> \<not> is_check B (push B board mv)"
    using p by blast
  then show ?thesis
  proof cases
    case victim
    then have "300 \<le> PIECE_VALUES (piece_type c)" using k by (simp add: PIECE_VALUES_minor)
    then show ?thesis using sc a900 promo_cap top by (simp split: if_splits)
  next
    case attacker
    then have "PIECE_VALUES (piece_type a) \<le> 500" by (rule PIECE_VALUES_not_queen)
    then show ?thesis using sc c100 promo_cap top by (simp split: if_splits)
  next
    case promo
    then obtain pt where "promotion cap = Some pt" by auto
    moreover have "0 \<le> PIECE_VALUES pt" using PIECE_VALUES_bounds [of pt] by simp
    ultimately show ?thesis using sc c100 a900 top by (simp split: if_splits)
  next
    case check
    then show ?thesis using sc c100 a900 promo_cap top by simp
  next
    case other
    then show ?thesis using capture_beats_quiet [OF u cap c a k q] by blast
  qed
qed

lemma sorted_wrt_ahead:
  assumes "sorted_wrt (\<lambda>a b. f b \<le> (f a :: int)) ms" "i < length ms" "j < length ms"
    "f (ms ! j) < f (ms ! i)"
  shows "i < j"
proof (rule ccontr)
  assume "\<not> i < j"
  then have "j = i \<or> j < i" by auto
  then show False
  proof
    assume "j = i" then show False using assms(4) by simp
  next
    assume "j < i"
    then have "f (ms ! i) \<le> f (ms ! j)"
      using sorted_wrt_nth_less [OF assms(1) \<open>j < i\<close> assms(2)] by simp
    then show False using assms(4) by simp
  qed
qed



text \<open>
  C8. On a board whose pop undoes its push, \<open>move_ordering\<close> returns normally, leaves
  the board as it was, and its result is a permutation of the legal moves, in descending
  order of the heuristic score: a move never stands before a move of higher score, so a
  move of strictly higher score stands strictly earlier; and the moves of any one score
  keep the order in which the rules library listed them.
\<close>

theorem move_ordering_sorted:
  assumes "undo_ok B"
  shows "\<exists>ms. move_ordering B board = (Inr ms, board)
     \<and> mset ms = mset (legal_moves B board)
     \<and> sorted_wrt (\<lambda>a b. key_score B board b \<le> key_score B board a) ms
     \<and> (\<forall>i j. i < length ms \<and> j < length ms
            \<and> key_score B board (ms ! j) < key_score B board (ms ! i) \<longrightarrow> i < j)
     \<and> (\<forall>k. filter (\<lambda>m. key_score B board m = k) ms =
             filter (\<lambda>m. key_score B board m = k) (legal_moves B board))"
proof -
  let ?ms = "sort_key (\<lambda>m. - key_score B board m) (legal_moves B board)"
  have s: "sorted_wrt (\<lambda>a b. key_score B board b \<le> key_score B board a) ?ms"
    by (rule sorted_descending)
  have "\<forall>i j. i < length ?ms \<and> j < length ?ms
      \<and> key_score B board (?ms ! j) < key_score B board (?ms ! i) \<longrightarrow> i < j"
    using sorted_wrt_ahead [OF s] by blast
  then show ?thesis
    using assms s by (simp add: move_ordering_undo stable_descending)
qed

theorem move_ordering_sorted_witness:
  "undo_ok ogame
   \<and> legal_moves ogame (0, []) = [Kh1, exd6, Qxd5, b8Q]
   \<and> map (key_score ogame (0, [])) [Kh1, exd6, Qxd5, b8Q] = [0, - 100, 10100, 10400]
   \<and> move_ordering ogame (0, []) = (Inr [b8Q, Qxd5, Kh1, exd6], (0, []))
   \<and> mset [b8Q, Qxd5, Kh1, exd6] = mset (legal_moves ogame (0, []))
   \<and> sorted_wrt (\<lambda>a b. key_score ogame (0, []) b \<le> key_score ogame (0, []) a)
        [b8Q, Qxd5, Kh1, exd6]"
proof -
  have u: "undo_ok ogame"
    by (simp add: ogame_def table_undo_ok)
  have l: "legal_moves ogame (0, []) = [Kh1, exd6, Qxd5, b8Q]"
    by (simp add: ogame_def table_api_def)
  have k: "map (key_score ogame (0, [])) [Kh1, exd6, Qxd5, b8Q] = [0, - 100, 10100, 10400]"
    by code_simp
  have o: "move_ordering ogame (0, []) = (Inr [b8Q, Qxd5, Kh1, exd6], (0, []))"
    by code_simp
  obtain ms where ms: "move_ordering ogame (0, []) = (Inr ms, (0, []))"
    "mset ms = mset (legal_moves ogame (0, []))"
    "sorted_wrt (\<lambda>a b. key_score ogame (0, []) b \<le> key_score ogame (0, []) a) ms"
    using move_ordering_sorted [OF u, of "(0, [])"] by blast
  have "ms = [b8Q, Qxd5, Kh1, exd6]"
    using ms(1) o by simp
  then show ?thesis
    using u l k o ms(2,3) by simp
qed

text \<open>
  C3 (as amended). On a board whose pop undoes its push, a capture whose captured piece
  stands on the destination square (every capture but en passant) and whose capturing
  piece stands on the origin square scores 10000 plus ten times the captured piece's base
  value minus the capturing piece's base value, plus the promotion and check bonuses
  where they apply. If the captured piece is not a king, the capture scores more than,
  and stands in the ordered list before, every non-capturing move, with one exception:
  a queen that takes a pawn without promoting and without giving check (10100) against
  a queen promotion that gives check (10400).
\<close>

theorem capture_ordering:
  assumes "undo_ok B" and "is_capture B board cap"
    and "piece_at B board (to_square cap) = Some c"
    and "piece_at B board (from_square cap) = Some a"
    and "piece_type c \<noteq> KING"
    and "\<not> is_capture B board mv"
    and "piece_type c \<noteq> PAWN \<or> piece_type a \<noteq> QUEEN \<or> promotion cap \<noteq> None
        \<or> is_check B (push B board cap)
        \<or> promotion mv \<noteq> Some QUEEN \<or> \<not> is_check B (push B board mv)"
  shows "key B board cap =
      (Inr (10000 + 10 * PIECE_VALUES (piece_type c) - PIECE_VALUES (piece_type a)
            + (case promotion cap of Some pt \<Rightarrow> 9000 + PIECE_VALUES pt | None \<Rightarrow> 0)
            + (if is_check B (push B board cap) then 500 else 0)), board)
    \<and> key_score B board mv < key_score B board cap
    \<and> (\<exists>ms. move_ordering B board = (Inr ms, board)
          \<and> (\<forall>i j. i < length ms \<and> j < length ms \<and> ms ! i = cap \<and> ms ! j = mv
                 \<longrightarrow> i < j))"
proof -
  let ?ms = "sort_key (\<lambda>m. - key_score B board m) (legal_moves B board)"
  have lt: "key_score B board mv < key_score B board cap"
    using assms by (rule capture_beats_every_quiet)
  have ahead: "\<forall>i j. i < length ?ms \<and> j < length ?ms \<and> ?ms ! i = cap \<and> ?ms ! j = mv \<longrightarrow> i < j"
  proof (intro allI impI)
    fix i j
    assume h: "i < length ?ms \<and> j < length ?ms \<and> ?ms ! i = cap \<and> ?ms ! j = mv"
    have "sorted_wrt (\<lambda>a b. key_score B board b \<le> key_score B board a) ?ms"
      by (rule sorted_descending)
    then show "i < j"
    proof (rule sorted_wrt_ahead)
      show "i < length ?ms" "j < length ?ms" using h by simp_all
      show "key_score B board (?ms ! j) < key_score B board (?ms ! i)" using h lt by simp
    qed
  qed
  have k: "key B board cap =
      (Inr (10000 + 10 * PIECE_VALUES (piece_type c) - PIECE_VALUES (piece_type a)
            + (case promotion cap of Some pt \<Rightarrow> 9000 + PIECE_VALUES pt | None \<Rightarrow> 0)
            + (if is_check B (push B board cap) then 500 else 0)), board)"
    unfolding key_undo [OF assms(1)] capture_score [OF assms(1-4)] ..
  have m: "move_ordering B board = (Inr ?ms, board)"
    using assms(1) by (rule move_ordering_undo)
  from k lt m ahead show ?thesis by blast
qed

theorem capture_ordering_witness:
  "undo_ok pgame \<and> is_capture pgame (0, []) cxd5
   \<and> piece_at pgame (0, []) (to_square cxd5) = Some (Bl PAWN)
   \<and> piece_at pgame (0, []) (from_square cxd5) = Some (W PAWN)
   \<and> piece_type (Bl PAWN) \<noteq> KING
   \<and> \<not> is_capture pgame (0, []) b8Q
   \<and> piece_type (W PAWN) \<noteq> QUEEN
   \<and> promotion b8Q = Some QUEEN \<and> is_check pgame (push pgame (0, []) b8Q)
   \<and> legal_moves pgame (0, []) = [b8Q, cxd5]
   \<and> key pgame (0, []) cxd5 = (Inr 10900, (0, []))
   \<and> key_score pgame (0, []) b8Q = 10400
   \<and> key_score pgame (0, []) b8Q < key_score pgame (0, []) cxd5
   \<and> move_ordering pgame (0, []) = (Inr [cxd5, b8Q], (0, []))"
proof -
  have u: "undo_ok pgame"
    by (simp add: pgame_def table_undo_ok)
  have cap: "is_capture pgame (0, []) cxd5"
    by (simp add: pgame_def table_api_def)
  have c: "piece_at pgame (0, []) (to_square cxd5) = Some (Bl PAWN)"
    by (simp add: pgame_def table_api_def cxd5_def)
  have a: "piece_at pgame (0, []) (from_square cxd5) = Some (W PAWN)"
    by (simp add: pgame_def table_api_def cxd5_def)
  have k: "piece_type (Bl PAWN) \<noteq> KING"
    by (simp add: Bl_def)
  have q: "\<not> is_capture pgame (0, []) b8Q"
    by (simp add: pgame_def table_api_def b8Q_def cxd5_def)
  have aq: "piece_type (W PAWN) \<noteq> QUEEN"
    by (simp add: W_def)
  have pq: "promotion b8Q = Some QUEEN" "is_check pgame (push pgame (0, []) b8Q)"
    by (simp_all add: pgame_def table_api_def t_succ_def b8Q_def)
  have l: "legal_moves pgame (0, []) = [b8Q, cxd5]"
    by (simp add: pgame_def table_api_def)
  have no_check: "\<not> is_check pgame (push pgame (0, []) cxd5)"
    by (simp add: pgame_def table_api_def t_succ_def cxd5_def)
  have s: "key_score pgame (0, []) b8Q = 10400"
    by code_simp
  have o: "move_ordering pgame (0, []) = (Inr [cxd5, b8Q], (0, []))"
    by code_simp
  from aq have p: "piece_type (Bl PAWN) \<noteq> PAWN \<or> piece_type (W PAWN) \<noteq> QUEEN
      \<or> promotion cxd5 \<noteq> None \<or> is_check pgame (push pgame (0, []) cxd5)
      \<or> promotion b8Q \<noteq> Some QUEEN \<or> \<not> is_check pgame (push pgame (0, []) b8Q)"
    by simp
  have "key pgame (0, []) cxd5 = (Inr 10900, (0, []))
      \<and> key_score pgame (0, []) b8Q < key_score pgame (0, []) cxd5"
    using capture_ordering [OF u cap c a k q p] no_check
    by (simp add: Bl_def W_def cxd5_def)
  then show ?thesis
    using u cap c a k q aq pq l s o by simp
qed

text \<open>
  The claim as written fails on this board: the en-passant capture exd6 finds no piece on
  its destination square, gets no capture bonus and scores -100, behind the quiet Kh1;
  and the promotion b8=Q with check, which captures nothing, scores 10400 and is ordered
  before the capture Qxd5, which scores 10100.
\<close>

theorem capture_ordering_counterexample:
  "legal_moves ogame (0, []) = [Kh1, exd6, Qxd5, b8Q]
   \<and> is_capture ogame (0, []) exd6 \<and> is_capture ogame (0, []) Qxd5
   \<and> \<not> is_capture ogame (0, []) Kh1 \<and> \<not> is_capture ogame (0, []) b8Q
   \<and> key ogame (0, []) exd6 = (Inr (- 100), (0, []))
   \<and> key ogame (0, []) Kh1 = (Inr 0, (0, []))
   \<and> key ogame (0, []) Qxd5 = (Inr 10100, (0, []))
   \<and> key ogame (0, []) b8Q = (Inr 10400, (0, []))
   \<and> move_ordering ogame (0, []) = (Inr [b8Q, Qxd5, Kh1, exd6], (0, []))"
  by code_simp

section \<open>The search\<close>

subsection \<open>Case analysis of one call and of one pass of a loop\<close>

lemma loop_max_step:
  assumes "loop_max fuel B e board depth best alpha beta (mv # rest) = Some res"
  obtains
    (child_error) err e1 b1 where
      "minimax fuel B e (push B board mv) (depth - 1) alpha beta = Some (Inl err, e1, b1)"
      "res = (Inl err, e1, b1)"
  | (pop_error) val e1 b1 where
      "minimax fuel B e (push B board mv) (depth - 1) alpha beta = Some (Inr val, e1, b1)"
      "pop B b1 = None" "res = (Inl IndexError, e1, b1)"
  | (cutoff) val e1 b1 b2 where
      "minimax fuel B e (push B board mv) (depth - 1) alpha beta = Some (Inr val, e1, b1)"
      "pop B b1 = Some b2" "xle beta (xmax alpha (xmax best (Fin val)))"
      "res = (Inr (xmax best (Fin val)), e1, b2)"
  | (continue) val e1 b1 b2 where
      "minimax fuel B e (push B board mv) (depth - 1) alpha beta = Some (Inr val, e1, b1)"
      "pop B b1 = Some b2" "\<not> xle beta (xmax alpha (xmax best (Fin val)))"
      "loop_max fuel B e1 b2 depth (xmax best (Fin val)) (xmax alpha (xmax best (Fin val))) beta rest
         = Some res"
  using assms
  by (auto simp: Let_def split: option.splits sum.splits prod.splits if_splits)

lemma loop_min_step:
  assumes "loop_min fuel B e board depth best alpha beta (mv # rest) = Some res"
  obtains
    (child_error) err e1 b1 where
      "minimax fuel B e (push B board mv) (depth - 1) alpha beta = Some (Inl err, e1, b1)"
      "res = (Inl err, e1, b1)"
  | (pop_error) val e1 b1 where
      "minimax fuel B e (push B board mv) (depth - 1) alpha beta = Some (Inr val, e1, b1)"
      "pop B b1 = None" "res = (Inl IndexError, e1, b1)"
  | (cutoff) val e1 b1 b2 where
      "minimax fuel B e (push B board mv) (depth - 1) alpha beta = Some (Inr val, e1, b1)"
      "pop B b1 = Some b2" "xle (xmin beta (xmin best (Fin val))) alpha"
      "res = (Inr (xmin best (Fin val)), e1, b2)"
  | (continue) val e1 b1 b2 where
      "minimax fuel B e (push B board mv) (depth - 1) alpha beta = Some (Inr val, e1, b1)"
      "pop B b1 = Some b2" "\<not> xle (xmin beta (xmin best (Fin val))) alpha"
      "loop_min fuel B e1 b2 depth (xmin best (Fin val)) alpha (xmin beta (xmin best (Fin val))) rest
         = Some res"
  using assms
  by (auto simp: Let_def split: option.splits sum.splits prod.splits if_splits)

lemma minimax_Suc_cases:
  assumes "minimax (Suc fuel) B e board depth alpha beta = Some res"
  obtains
    (hit) v where
      "tt e (cache_key_of B board depth) = Some v"
      "res = (Inr v, e\<lparr>nodes := nodes e + 1\<rparr>, board)"
  | (leaf)
      "tt e (cache_key_of B board depth) = None" "depth = 0 \<or> is_game_over B board"
      "res = (Inr (evaluate B board),
              e\<lparr>nodes := nodes e + 1,
                tt := (tt e)(cache_key_of B board depth \<mapsto> evaluate B board)\<rparr>, board)"
  | (order_error) err b1 where
      "tt e (cache_key_of B board depth) = None" "\<not> (depth = 0 \<or> is_game_over B board)"
      "move_ordering B board = (Inl err, b1)"
      "res = (Inl err, e\<lparr>nodes := nodes e + 1\<rparr>, b1)"
  | (loop_error) moves b1 err e2 b2 where
      "tt e (cache_key_of B board depth) = None" "\<not> (depth = 0 \<or> is_game_over B board)"
      "move_ordering B board = (Inr moves, b1)"
      "(if turn B board
        then loop_max fuel B (e\<lparr>nodes := nodes e + 1\<rparr>) b1 depth NInf alpha beta moves
        else loop_min fuel B (e\<lparr>nodes := nodes e + 1\<rparr>) b1 depth PInf alpha beta moves)
       = Some (Inl err, e2, b2)"
      "res = (Inl err, e2, b2)"
  | (overflow) moves b1 best e2 b2 where
      "tt e (cache_key_of B board depth) = None" "\<not> (depth = 0 \<or> is_game_over B board)"
      "move_ordering B board = (Inr moves, b1)"
      "(if turn B board
        then loop_max fuel B (e\<lparr>nodes := nodes e + 1\<rparr>) b1 depth NInf alpha beta moves
        else loop_min fuel B (e\<lparr>nodes := nodes e + 1\<rparr>) b1 depth PInf alpha beta moves)
       = Some (Inr best, e2, b2)"
      "best = NInf \<or> best = PInf"
      "res = (Inl OverflowError, e2, b2)"
  | (searched) moves b1 v e2 b2 where
      "tt e (cache_key_of B board depth) = None" "\<not> (depth = 0 \<or> is_game_over B board)"
      "move_ordering B board = (Inr moves, b1)"
      "(if turn B board
        then loop_max fuel B (e\<lparr>nodes := nodes e + 1\<rparr>) b1 depth NInf alpha beta moves
        else loop_min fuel B (e\<lparr>nodes := nodes e + 1\<rparr>) b1 depth PInf alpha beta moves)
       = Some (Inr (Fin v), e2, b2)"
      "res = (Inr v, e2\<lparr>tt := (tt e2)(cache_key_of B board depth \<mapsto> v)\<rparr>, b2)"
proof -
  show ?thesis
  proof (cases "tt e (cache_key_of B board depth)")
    case (Some v)
    then show ?thesis using assms hit by (simp add: Let_def)
  next
    case None
    note miss = None
    show ?thesis
    proof (cases "depth = 0 \<or> is_game_over B board")
      case True
      then show ?thesis using assms miss leaf by (simp add: Let_def)
    next
      case False
      obtain r b1 where mo: "move_ordering B board = (r, b1)" by (cases "move_ordering B board")
      show ?thesis
      proof (cases r)
        case (Inl err)
        then show ?thesis
          using assms miss False mo order_error [of err b1] by (simp add: Let_def split: if_splits)
      next
        case (Inr moves)
        let ?l = "(if turn B board
          then loop_max fuel B (e\<lparr>nodes := nodes e + 1\<rparr>) b1 depth NInf alpha beta moves
          else loop_min fuel B (e\<lparr>nodes := nodes e + 1\<rparr>) b1 depth PInf alpha beta moves)"
        from assms miss False mo Inr
        have eq: "(case ?l of None \<Rightarrow> None
                  | Some (Inl err, e2, board2) \<Rightarrow> Some (Inl err, e2, board2)
                  | Some (Inr best, e2, board2) \<Rightarrow>
                      (case to_int best of
                         Inl err \<Rightarrow> Some (Inl err, e2, board2)
                       | Inr v \<Rightarrow> Some (Inr v, e2\<lparr>tt := (tt e2)(cache_key_of B board depth \<mapsto> v)\<rparr>, board2)))
              = Some res"
          by (simp add: Let_def split: if_splits)
        then obtain lr e2 b2 where l: "?l = Some (lr, e2, b2)"
          by (cases ?l) auto
        show ?thesis
        proof (cases lr)
          case (Inl err)
          then show ?thesis
            using eq l loop_error [of moves b1 err e2 b2] miss False mo Inr by simp
        next
          case lrr: (Inr best)
          show ?thesis
          proof (cases best)
            case (Fin v)
            then show ?thesis
              using eq l lrr searched [of moves b1 v e2 b2] miss False mo Inr by simp
          next
            case NInf
            then show ?thesis
              using eq l lrr overflow [of moves b1 best e2 b2] miss False mo Inr by simp
          next
            case PInf
            then show ?thesis
              using eq l lrr overflow [of moves b1 best e2 b2] miss False mo Inr by simp
          qed
        qed
      qed
    qed
  qed
qed

subsection \<open>Every push is undone\<close>

lemma loop_max_board:
  assumes u: "undo_ok B"
    and mm: "\<And>e board depth alpha beta v e' board'.
      minimax fuel B e board depth alpha beta = Some (Inr v, e', board') \<Longrightarrow> board' = board"
  shows "loop_max fuel B e board depth best alpha beta ms = Some (Inr r, e', board')
    \<Longrightarrow> board' = board"
proof (induction ms arbitrary: e board best alpha)
  case Nil
  then show ?case by simp
next
  case (Cons mv rest)
  from Cons.prems show ?case
  proof (cases rule: loop_max_step)
    case (cutoff val e1 b1 b2)
    then have "b1 = push B board mv" using mm by blast
    then show ?thesis using cutoff u by (simp add: undo_ok_def)
  next
    case (continue val e1 b1 b2)
    then have "b1 = push B board mv" using mm by blast
    then have "b2 = board" using continue u by (simp add: undo_ok_def)
    then show ?thesis using continue(4) Cons.IH by blast
  qed simp_all
qed

lemma loop_min_board:
  assumes u: "undo_ok B"
    and mm: "\<And>e board depth alpha beta v e' board'.
      minimax fuel B e board depth alpha beta = Some (Inr v, e', board') \<Longrightarrow> board' = board"
  shows "loop_min fuel B e board depth best alpha beta ms = Some (Inr r, e', board')
    \<Longrightarrow> board' = board"
proof (induction ms arbitrary: e board best beta)
  case Nil
  then show ?case by simp
next
  case (Cons mv rest)
  from Cons.prems show ?case
  proof (cases rule: loop_min_step)
    case (cutoff val e1 b1 b2)
    then have "b1 = push B board mv" using mm by blast
    then show ?thesis using cutoff u by (simp add: undo_ok_def)
  next
    case (continue val e1 b1 b2)
    then have "b1 = push B board mv" using mm by blast
    then have "b2 = board" using continue u by (simp add: undo_ok_def)
    then show ?thesis using continue(4) Cons.IH by blast
  qed simp_all
qed

lemma minimax_board:
  assumes u: "undo_ok B"
  shows "minimax fuel B e board depth alpha beta = Some (Inr v, e', board') \<Longrightarrow> board' = board"
proof (induction fuel arbitrary: e board depth alpha beta v e' board')
  case 0
  then show ?case by simp
next
  case (Suc fuel)
  from Suc.prems show ?case
  proof (cases rule: minimax_Suc_cases)
    case (searched moves b1 w e2 b2)
    have b1: "b1 = board"
      using searched(3) move_ordering_undo [OF u, of board] by simp
    have "b2 = board"
    proof (cases "turn B board")
      case True
      then show ?thesis
        using searched(4) b1 loop_max_board [OF u Suc.IH] by simp
    next
      case False
      then show ?thesis
        using searched(4) b1 loop_min_board [OF u Suc.IH] by simp
    qed
    then show ?thesis using searched(5) by simp
  qed simp_all
qed

subsection \<open>The cache only grows\<close>

lemma cache_grows_refl: "cache_grows d e e"
  by (simp add: cache_grows_def)

lemma cache_grows_trans:
  "cache_grows d e1 e2 \<Longrightarrow> cache_grows d e2 e3 \<Longrightarrow> cache_grows d e1 e3"
  unfolding cache_grows_def by metis

lemma cache_grows_mono: "cache_grows d e1 e2 \<Longrightarrow> d \<le> d' \<Longrightarrow> cache_grows d' e1 e2"
  unfolding cache_grows_def by (meson order_trans)

lemma cache_grows_nodes: "cache_grows d (e\<lparr>nodes := n\<rparr>) e' = cache_grows d e e'"
  by (simp add: cache_grows_def)

lemma cache_grows_count: "cache_grows d e (e\<lparr>nodes := n\<rparr>)"
  by (simp add: cache_grows_def)

lemma cache_grows_store:
  assumes g: "cache_grows (d - 1) e e2" and miss: "tt e (h, d, t) = None"
  shows "cache_grows d e (e2\<lparr>tt := (tt e2)((h, d, t) \<mapsto> v)\<rparr>)"
proof -
  have same: "tt e2 (h, d, t) = tt e (h, d, t)"
  proof (rule ccontr)
    assume "tt e2 (h, d, t) \<noteq> tt e (h, d, t)"
    then have "fst (snd (h, d, t)) \<le> d - 1"
      using g unfolding cache_grows_def by blast
    then show False by simp
  qed
  have keep: "\<forall>k w. tt e k = Some w \<longrightarrow> ((tt e2)((h, d, t) \<mapsto> v)) k = Some w"
    using g miss unfolding cache_grows_def by auto
  have diff: "\<forall>k. ((tt e2)((h, d, t) \<mapsto> v)) k \<noteq> tt e k \<longrightarrow> fst (snd k) \<le> d"
  proof (intro allI impI)
    fix k
    assume ne: "((tt e2)((h, d, t) \<mapsto> v)) k \<noteq> tt e k"
    show "fst (snd k) \<le> d"
    proof (cases "k = (h, d, t)")
      case True
      then show ?thesis by simp
    next
      case False
      then have "tt e2 k \<noteq> tt e k" using ne by simp
      then have "fst (snd k) \<le> d - 1"
        using g unfolding cache_grows_def by blast
      then show ?thesis by simp
    qed
  qed
  show ?thesis
    unfolding cache_grows_def using keep diff by simp
qed

lemma loop_max_grows:
  assumes mm: "\<forall>e board alpha beta res.
      minimax fuel B e board (depth - 1) alpha beta = Some res \<longrightarrow>
      cache_grows (depth - 1) e (fst (snd res))"
  shows "loop_max fuel B e board depth best alpha beta ms = Some res
    \<Longrightarrow> cache_grows (depth - 1) e (fst (snd res))"
proof (induction ms arbitrary: e board best alpha)
  case Nil
  then show ?case by (auto simp: cache_grows_refl)
next
  case (Cons mv rest)
  from Cons.prems show ?case
  proof (cases rule: loop_max_step)
    case (child_error err e1 b1)
    then show ?thesis using mm by fastforce
  next
    case (pop_error val e1 b1)
    then show ?thesis using mm by fastforce
  next
    case (cutoff val e1 b1 b2)
    then show ?thesis using mm by fastforce
  next
    case (continue val e1 b1 b2)
    have "cache_grows (depth - 1) e e1" using continue(1) mm by fastforce
    moreover have "cache_grows (depth - 1) e1 (fst (snd res))"
      using continue(4) by (rule Cons.IH)
    ultimately show ?thesis by (rule cache_grows_trans)
  qed
qed

lemma loop_min_grows:
  assumes mm: "\<forall>e board alpha beta res.
      minimax fuel B e board (depth - 1) alpha beta = Some res \<longrightarrow>
      cache_grows (depth - 1) e (fst (snd res))"
  shows "loop_min fuel B e board depth best alpha beta ms = Some res
    \<Longrightarrow> cache_grows (depth - 1) e (fst (snd res))"
proof (induction ms arbitrary: e board best beta)
  case Nil
  then show ?case by (auto simp: cache_grows_refl)
next
  case (Cons mv rest)
  from Cons.prems show ?case
  proof (cases rule: loop_min_step)
    case (child_error err e1 b1)
    then show ?thesis using mm by fastforce
  next
    case (pop_error val e1 b1)
    then show ?thesis using mm by fastforce
  next
    case (cutoff val e1 b1 b2)
    then show ?thesis using mm by fastforce
  next
    case (continue val e1 b1 b2)
    have "cache_grows (depth - 1) e e1" using continue(1) mm by fastforce
    moreover have "cache_grows (depth - 1) e1 (fst (snd res))"
      using continue(4) by (rule Cons.IH)
    ultimately show ?thesis by (rule cache_grows_trans)
  qed
qed

lemma minimax_grows:
  "minimax fuel B e board depth alpha beta = Some res \<Longrightarrow> cache_grows depth e (fst (snd res))"
proof (induction fuel arbitrary: e board depth alpha beta res)
  case 0
  then show ?case by simp
next
  case (Suc fuel)
  let ?e1 = "e\<lparr>nodes := nodes e + 1\<rparr>"
  have mm: "\<forall>e board alpha beta res.
      minimax fuel B e board (depth - 1) alpha beta = Some res \<longrightarrow>
      cache_grows (depth - 1) e (fst (snd res))"
    using Suc.IH by blast
  have loops: "cache_grows (depth - 1) e e2"
    if "(if turn B board
         then loop_max fuel B ?e1 b1 depth NInf alpha beta moves
         else loop_min fuel B ?e1 b1 depth PInf alpha beta moves) = Some (r, e2, b2)"
    for moves b1 r e2 b2
  proof -
    have "cache_grows (depth - 1) ?e1 (fst (snd (r, e2, b2)))"
    proof (cases "turn B board")
      case True
      then show ?thesis using that loop_max_grows [OF mm] by fastforce
    next
      case False
      then show ?thesis using that loop_min_grows [OF mm] by fastforce
    qed
    then show ?thesis by (simp add: cache_grows_nodes)
  qed
  from Suc.prems show ?case
  proof (cases rule: minimax_Suc_cases)
    case (hit v)
    then show ?thesis by (simp add: cache_grows_count)
  next
    case leaf
    have "cache_grows depth e (e\<lparr>tt := (tt e)(cache_key_of B board depth \<mapsto> evaluate B board)\<rparr>)"
      using leaf(1) cache_grows_store [OF cache_grows_refl, of e _ depth]
      by (simp add: cache_key_of_def)
    then show ?thesis using leaf(3) by (simp add: cache_grows_def)
  next
    case (order_error err b1)
    then show ?thesis by (simp add: cache_grows_count)
  next
    case (loop_error moves b1 err e2 b2)
    then show ?thesis using loops cache_grows_mono [of "depth - 1" e e2 depth] by simp
  next
    case (overflow moves b1 best e2 b2)
    then show ?thesis using loops cache_grows_mono [of "depth - 1" e e2 depth] by simp
  next
    case (searched moves b1 v e2 b2)
    have "cache_grows (depth - 1) e e2" using searched(4) by (rule loops)
    then show ?thesis
      using searched(1,5) cache_grows_store [of depth e e2 "board_hash B board" "turn B board" v]
      by (simp add: cache_key_of_def)
  qed
qed

lemma minimax_stored:
  "minimax fuel B e board depth alpha beta = Some (Inr v, e', board')
   \<Longrightarrow> tt e' (cache_key_of B board depth) = Some v"
proof (cases fuel)
  case 0
  assume "minimax fuel B e board depth alpha beta = Some (Inr v, e', board')"
  then show ?thesis using 0 by simp
next
  case (Suc n)
  assume "minimax fuel B e board depth alpha beta = Some (Inr v, e', board')"
  then have "minimax (Suc n) B e board depth alpha beta = Some (Inr v, e', board')"
    using Suc by simp
  then show ?thesis
    by (cases rule: minimax_Suc_cases) auto
qed

subsection \<open>The search returns\<close>

lemma xmax_Fin: "xmax best (Fin v) \<noteq> NInf \<and> (best \<noteq> PInf \<longrightarrow> xmax best (Fin v) \<noteq> PInf)"
  by (cases best) (simp_all add: xmax_def)

lemma xmin_Fin: "xmin best (Fin v) \<noteq> PInf \<and> (best \<noteq> NInf \<longrightarrow> xmin best (Fin v) \<noteq> NInf)"
  by (cases best) (simp_all add: xmin_def)

lemma loop_max_total:
  assumes u: "undo_ok B"
    and mm: "\<forall>e board alpha beta. \<exists>v e'.
      minimax fuel B e board (depth - 1) alpha beta = Some (Inr v, e', board)"
  shows "best \<noteq> PInf \<Longrightarrow>
    \<exists>r e'. loop_max fuel B e board depth best alpha beta ms = Some (Inr r, e', board)
      \<and> r \<noteq> PInf \<and> (ms \<noteq> [] \<or> best \<noteq> NInf \<longrightarrow> r \<noteq> NInf)"
proof (induction ms arbitrary: e best alpha)
  case Nil
  then show ?case by simp
next
  case (Cons mv rest)
  obtain v e1 where c: "minimax fuel B e (push B board mv) (depth - 1) alpha beta
      = Some (Inr v, e1, push B board mv)"
    using mm by blast
  have p: "pop B (push B board mv) = Some board"
    using u by (simp add: undo_ok_def)
  let ?best = "xmax best (Fin v)"
  have b: "?best \<noteq> NInf" "?best \<noteq> PInf"
    using xmax_Fin [of best v] Cons.prems by simp_all
  show ?case
  proof (cases "xle beta (xmax alpha ?best)")
    case True
    then show ?thesis using c p b by simp
  next
    case False
    obtain r e' where "loop_max fuel B e1 board depth ?best (xmax alpha ?best) beta rest
        = Some (Inr r, e', board)" "r \<noteq> PInf" "r \<noteq> NInf"
      using Cons.IH [OF b(2), of e1 "xmax alpha ?best"] b(1) by blast
    then show ?thesis using c p False by simp
  qed
qed

lemma loop_min_total:
  assumes u: "undo_ok B"
    and mm: "\<forall>e board alpha beta. \<exists>v e'.
      minimax fuel B e board (depth - 1) alpha beta = Some (Inr v, e', board)"
  shows "best \<noteq> NInf \<Longrightarrow>
    \<exists>r e'. loop_min fuel B e board depth best alpha beta ms = Some (Inr r, e', board)
      \<and> r \<noteq> NInf \<and> (ms \<noteq> [] \<or> best \<noteq> PInf \<longrightarrow> r \<noteq> PInf)"
proof (induction ms arbitrary: e best beta)
  case Nil
  then show ?case by simp
next
  case (Cons mv rest)
  obtain v e1 where c: "minimax fuel B e (push B board mv) (depth - 1) alpha beta
      = Some (Inr v, e1, push B board mv)"
    using mm by blast
  have p: "pop B (push B board mv) = Some board"
    using u by (simp add: undo_ok_def)
  let ?best = "xmin best (Fin v)"
  have b: "?best \<noteq> PInf" "?best \<noteq> NInf"
    using xmin_Fin [of best v] Cons.prems by simp_all
  show ?case
  proof (cases "xle (xmin beta ?best) alpha")
    case True
    then show ?thesis using c p b by simp
  next
    case False
    obtain r e' where "loop_min fuel B e1 board depth ?best alpha (xmin beta ?best) rest
        = Some (Inr r, e', board)" "r \<noteq> NInf" "r \<noteq> PInf"
      using Cons.IH [OF b(2), of e1 "xmin beta ?best"] b(1) by blast
    then show ?thesis using c p False by simp
  qed
qed

lemma sorted_moves_nonempty:
  "ms \<noteq> [] \<Longrightarrow> sort_key f ms \<noteq> []"
  by (metis length_sort length_0_conv)

lemma minimax_total:
  assumes u: "undo_ok B" and w: "moves_or_over B"
  shows "0 \<le> depth \<Longrightarrow> depth < int fuel \<Longrightarrow>
    \<exists>v e'. minimax fuel B e board depth alpha beta = Some (Inr v, e', board)"
proof (induction fuel arbitrary: depth e board alpha beta)
  case 0
  then show ?case by simp
next
  case (Suc fuel)
  let ?e1 = "e\<lparr>nodes := nodes e + 1\<rparr>"
  let ?k = "cache_key_of B board depth"
  show ?case
  proof (cases "tt e ?k")
    case (Some v)
    then show ?thesis by (simp add: Let_def)
  next
    case None
    show ?thesis
    proof (cases "depth = 0 \<or> is_game_over B board")
      case True
      then show ?thesis using None by (simp add: Let_def)
    next
      case False
      then have d: "0 \<le> depth - 1" "depth - 1 < int fuel"
        using Suc.prems by simp_all
      have mm: "\<forall>e board alpha beta. \<exists>v e'.
          minimax fuel B e board (depth - 1) alpha beta = Some (Inr v, e', board)"
        using Suc.IH [OF d] by blast
      let ?ms = "sort_key (\<lambda>m. - key_score B board m) (legal_moves B board)"
      have mo: "move_ordering B board = (Inr ?ms, board)"
        using u by (rule move_ordering_undo)
      have "legal_moves B board \<noteq> []"
        using False w by (auto simp: moves_or_over_def)
      then have ne: "?ms \<noteq> []" by (rule sorted_moves_nonempty)
      let ?l = "(if turn B board
          then loop_max fuel B ?e1 board depth NInf alpha beta ?ms
          else loop_min fuel B ?e1 board depth PInf alpha beta ?ms)"
      have "\<exists>r e2. ?l = Some (Inr r, e2, board) \<and> r \<noteq> PInf \<and> r \<noteq> NInf"
      proof (cases "turn B board")
        case True
        then show ?thesis
          using loop_max_total [OF u mm, of NInf ?e1 board alpha beta ?ms] ne by auto
      next
        case False
        then show ?thesis
          using loop_min_total [OF u mm, of PInf ?e1 board alpha beta ?ms] ne by auto
      qed
      then obtain r e2 where l: "?l = Some (Inr r, e2, board)" and "r \<noteq> PInf" "r \<noteq> NInf"
        by blast
      then obtain v where r: "r = Fin v" by (cases r) simp_all
      have "minimax (Suc fuel) B e board depth alpha beta =
          Some (Inr v, e2\<lparr>tt := (tt e2)(?k \<mapsto> v)\<rparr>, board)"
      proof (cases "turn B board")
        case True
        then show ?thesis using None False mo l r by (simp add: Let_def)
      next
        case f: False
        then show ?thesis using None False mo l r by (simp add: Let_def)
      qed
      then show ?thesis by blast
    qed
  qed
qed

subsection \<open>The root loops\<close>

lemma root_loop_white_step:
  assumes "root_loop_white fuel B e board depth bs bm (mv # rest) = Some res"
  obtains
    (child_error) err e1 b1 where
      "minimax fuel B e (push B board mv) (depth - 1) NInf PInf = Some (Inl err, e1, b1)"
      "res = (Inl err, e1, b1)"
  | (pop_error) sc e1 b1 where
      "minimax fuel B e (push B board mv) (depth - 1) NInf PInf = Some (Inr sc, e1, b1)"
      "pop B b1 = None" "res = (Inl IndexError, e1, b1)"
  | (continue) sc e1 b1 b2 where
      "minimax fuel B e (push B board mv) (depth - 1) NInf PInf = Some (Inr sc, e1, b1)"
      "pop B b1 = Some b2"
      "root_loop_white fuel B e1 b2 depth (if xlt bs (Fin sc) then Fin sc else bs)
         (if xlt bs (Fin sc) then Some mv else bm) rest = Some res"
  using assms
  by (auto simp: Let_def split: option.splits sum.splits prod.splits if_splits)

lemma root_loop_black_step:
  assumes "root_loop_black fuel B e board depth bs bm (mv # rest) = Some res"
  obtains
    (child_error) err e1 b1 where
      "minimax fuel B e (push B board mv) (depth - 1) NInf PInf = Some (Inl err, e1, b1)"
      "res = (Inl err, e1, b1)"
  | (pop_error) sc e1 b1 where
      "minimax fuel B e (push B board mv) (depth - 1) NInf PInf = Some (Inr sc, e1, b1)"
      "pop B b1 = None" "res = (Inl IndexError, e1, b1)"
  | (continue) sc e1 b1 b2 where
      "minimax fuel B e (push B board mv) (depth - 1) NInf PInf = Some (Inr sc, e1, b1)"
      "pop B b1 = Some b2"
      "root_loop_black fuel B e1 b2 depth (if xlt (Fin sc) bs then Fin sc else bs)
         (if xlt (Fin sc) bs then Some mv else bm) rest = Some res"
  using assms
  by (auto simp: Let_def split: option.splits sum.splits prod.splits if_splits)

lemma root_loop_white_board:
  assumes u: "undo_ok B"
  shows "root_loop_white fuel B e board depth bs bm ms = Some (Inr x, e', board')
    \<Longrightarrow> board' = board"
proof (induction ms arbitrary: e bs bm)
  case Nil
  then show ?case by simp
next
  case (Cons mv rest)
  from Cons.prems show ?case
  proof (cases rule: root_loop_white_step)
    case (continue sc e1 b1 b2)
    then have "b1 = push B board mv" using minimax_board [OF u] by blast
    then have "b2 = board" using continue u by (simp add: undo_ok_def)
    then show ?thesis using continue(3) Cons.IH by blast
  qed simp_all
qed

lemma root_loop_black_board:
  assumes u: "undo_ok B"
  shows "root_loop_black fuel B e board depth bs bm ms = Some (Inr x, e', board')
    \<Longrightarrow> board' = board"
proof (induction ms arbitrary: e bs bm)
  case Nil
  then show ?case by simp
next
  case (Cons mv rest)
  from Cons.prems show ?case
  proof (cases rule: root_loop_black_step)
    case (continue sc e1 b1 b2)
    then have "b1 = push B board mv" using minimax_board [OF u] by blast
    then have "b2 = board" using continue u by (simp add: undo_ok_def)
    then show ?thesis using continue(3) Cons.IH by blast
  qed simp_all
qed

lemma best_move_board:
  assumes u: "undo_ok B"
  shows "best_move fuel B e board depth = Some (Inr r, e', board') \<Longrightarrow> board' = board"
proof -
  assume bm: "best_move fuel B e board depth = Some (Inr r, e', board')"
  have mo: "move_ordering B board =
      (Inr (sort_key (\<lambda>m. - key_score B board m) (legal_moves B board)), board)"
    using u by (rule move_ordering_undo)
  show ?thesis
  proof (cases "turn B board")
    case True
    then show ?thesis
      using bm mo root_loop_white_board [OF u]
      by (auto simp: best_move_def Let_def split: option.splits sum.splits prod.splits)
  next
    case False
    then show ?thesis
      using bm mo root_loop_black_board [OF u]
      by (auto simp: best_move_def Let_def split: option.splits sum.splits prod.splits)
  qed
qed

lemma root_loop_white_grows:
  "root_loop_white fuel B e board depth bs bm ms = Some res
    \<Longrightarrow> cache_grows (depth - 1) e (fst (snd res))"
proof (induction ms arbitrary: e board bs bm)
  case Nil
  then show ?case by (auto simp: cache_grows_refl)
next
  case (Cons mv rest)
  from Cons.prems show ?case
  proof (cases rule: root_loop_white_step)
    case (child_error err e1 b1)
    then show ?thesis using minimax_grows by fastforce
  next
    case (pop_error sc e1 b1)
    then show ?thesis using minimax_grows by fastforce
  next
    case (continue sc e1 b1 b2)
    have "cache_grows (depth - 1) e e1" using continue(1) minimax_grows by fastforce
    moreover have "cache_grows (depth - 1) e1 (fst (snd res))"
      using continue(3) by (rule Cons.IH)
    ultimately show ?thesis by (rule cache_grows_trans)
  qed
qed

lemma root_loop_black_grows:
  "root_loop_black fuel B e board depth bs bm ms = Some res
    \<Longrightarrow> cache_grows (depth - 1) e (fst (snd res))"
proof (induction ms arbitrary: e board bs bm)
  case Nil
  then show ?case by (auto simp: cache_grows_refl)
next
  case (Cons mv rest)
  from Cons.prems show ?case
  proof (cases rule: root_loop_black_step)
    case (child_error err e1 b1)
    then show ?thesis using minimax_grows by fastforce
  next
    case (pop_error sc e1 b1)
    then show ?thesis using minimax_grows by fastforce
  next
    case (continue sc e1 b1 b2)
    have "cache_grows (depth - 1) e e1" using continue(1) minimax_grows by fastforce
    moreover have "cache_grows (depth - 1) e1 (fst (snd res))"
      using continue(3) by (rule Cons.IH)
    ultimately show ?thesis by (rule cache_grows_trans)
  qed
qed

lemma best_move_grows:
  assumes "best_move fuel B e board depth = Some res"
  shows "cache_grows (depth - 1) e (fst (snd res))"
proof -
  let ?e0 = "e\<lparr>nodes := 0\<rparr>"
  obtain mr b1 where mo: "move_ordering B board = (mr, b1)"
    by (cases "move_ordering B board")
  show ?thesis
  proof (cases mr)
    case (Inl err)
    then show ?thesis
      using assms mo by (auto simp: best_move_def Let_def cache_grows_count split: if_splits)
  next
    case (Inr moves)
    let ?l = "(if turn B board
        then root_loop_white fuel B ?e0 b1 depth NInf None moves
        else root_loop_black fuel B ?e0 b1 depth PInf None moves)"
    from assms mo Inr obtain lres where l: "?l = Some lres" and
      e: "fst (snd res) = fst (snd lres)"
      by (auto simp: best_move_def Let_def split: option.splits sum.splits prod.splits if_splits)
    have "cache_grows (depth - 1) ?e0 (fst (snd lres))"
    proof (cases "turn B board")
      case True
      then have "root_loop_white fuel B ?e0 b1 depth NInf None moves = Some lres"
        using l by simp
      then show ?thesis by (rule root_loop_white_grows)
    next
      case False
      then have "root_loop_black fuel B ?e0 b1 depth PInf None moves = Some lres"
        using l by simp
      then show ?thesis by (rule root_loop_black_grows)
    qed
    then show ?thesis
      using e by (simp add: cache_grows_nodes)
  qed
qed

lemma run_call_grows:
  "run_call fuel B e c = Some e' \<Longrightarrow> \<exists>d. cache_grows d e e'"
proof (cases c)
  case (Minimax board depth alpha beta)
  assume "run_call fuel B e c = Some e'"
  then show ?thesis using Minimax minimax_grows by fastforce
next
  case (BestMove board depth)
  assume "run_call fuel B e c = Some e'"
  then show ?thesis using BestMove best_move_grows by fastforce
qed

lemma run_calls_keep:
  "run_calls fuel B e cs = Some e' \<Longrightarrow> tt e k = Some v \<Longrightarrow> tt e' k = Some v"
proof (induction cs arbitrary: e)
  case Nil
  then show ?case by simp
next
  case (Cons c cs)
  then obtain e1 where c: "run_call fuel B e c = Some e1" and r: "run_calls fuel B e1 cs = Some e'"
    by (auto split: option.splits)
  from c obtain d where "cache_grows d e e1" using run_call_grows by blast
  then have "tt e1 k = Some v" using Cons.prems(2) unfolding cache_grows_def by blast
  then show ?case using r Cons.IH by blast
qed

lemma cache_grows_keep: "cache_grows d e e' \<Longrightarrow> tt e k = Some v \<Longrightarrow> tt e' k = Some v"
  unfolding cache_grows_def by blast

lemma root_loop_white_result:
  assumes u: "undo_ok B"
    and mm: "\<forall>e board alpha beta. \<exists>v e'.
      minimax fuel B e board (depth - 1) alpha beta = Some (Inr v, e', board)"
  shows "(bm = None \<and> bs = NInf)
      \<or> (\<exists>m s. bm = Some m \<and> m \<in> S \<and> bs = Fin s
            \<and> tt e (cache_key_of B (push B board m) (depth - 1)) = Some s)
    \<Longrightarrow> \<exists>bs' bm' e'.
      root_loop_white fuel B e board depth bs bm ms = Some (Inr (bs', bm'), e', board)
      \<and> ((bm = None \<and> ms = [] \<and> bm' = None \<and> bs' = NInf)
         \<or> (\<exists>m s. bm' = Some m \<and> m \<in> S \<union> set ms \<and> bs' = Fin s
               \<and> tt e' (cache_key_of B (push B board m) (depth - 1)) = Some s))"
proof (induction ms arbitrary: e bs bm S)
  case Nil
  then show ?case by auto
next
  case (Cons mv rest)
  obtain sc e1 where c: "minimax fuel B e (push B board mv) (depth - 1) NInf PInf
      = Some (Inr sc, e1, push B board mv)"
    using mm by blast
  have p: "pop B (push B board mv) = Some board"
    using u by (simp add: undo_ok_def)
  have st: "tt e1 (cache_key_of B (push B board mv) (depth - 1)) = Some sc"
    using c by (rule minimax_stored)
  have g: "cache_grows (depth - 1) e e1"
    using minimax_grows [OF c] by simp
  let ?bs = "if xlt bs (Fin sc) then Fin sc else bs"
  let ?bm = "if xlt bs (Fin sc) then Some mv else bm"
  have inv: "(?bm = None \<and> ?bs = NInf)
      \<or> (\<exists>m s. ?bm = Some m \<and> m \<in> insert mv S \<and> ?bs = Fin s
            \<and> tt e1 (cache_key_of B (push B board m) (depth - 1)) = Some s)"
  proof (cases "xlt bs (Fin sc)")
    case True
    then show ?thesis using st by simp
  next
    case False
    then have "bs \<noteq> NInf" by auto
    then obtain m s where "bm = Some m" "m \<in> S" "bs = Fin s"
      "tt e (cache_key_of B (push B board m) (depth - 1)) = Some s"
      using Cons.prems by blast
    then show ?thesis using False cache_grows_keep [OF g] by simp
  qed
  have step: "root_loop_white fuel B e board depth bs bm (mv # rest)
      = root_loop_white fuel B e1 board depth ?bs ?bm rest"
    using c p by simp
  obtain bs' bm' e' where r:
    "root_loop_white fuel B e1 board depth ?bs ?bm rest = Some (Inr (bs', bm'), e', board)"
    "(?bm = None \<and> rest = [] \<and> bm' = None \<and> bs' = NInf)
      \<or> (\<exists>m s. bm' = Some m \<and> m \<in> insert mv S \<union> set rest \<and> bs' = Fin s
            \<and> tt e' (cache_key_of B (push B board m) (depth - 1)) = Some s)"
    using Cons.IH [OF inv] by blast
  have "?bm \<noteq> None"
  proof (cases "xlt bs (Fin sc)")
    case True
    then show ?thesis by simp
  next
    case False
    then have "bs \<noteq> NInf" by auto
    then show ?thesis using Cons.prems False by auto
  qed
  then have "\<exists>m s. bm' = Some m \<and> m \<in> S \<union> set (mv # rest) \<and> bs' = Fin s
            \<and> tt e' (cache_key_of B (push B board m) (depth - 1)) = Some s"
    using r(2) by auto
  then show ?case using step r(1) by auto
qed

lemma root_loop_black_result:
  assumes u: "undo_ok B"
    and mm: "\<forall>e board alpha beta. \<exists>v e'.
      minimax fuel B e board (depth - 1) alpha beta = Some (Inr v, e', board)"
  shows "(bm = None \<and> bs = PInf)
      \<or> (\<exists>m s. bm = Some m \<and> m \<in> S \<and> bs = Fin s
            \<and> tt e (cache_key_of B (push B board m) (depth - 1)) = Some s)
    \<Longrightarrow> \<exists>bs' bm' e'.
      root_loop_black fuel B e board depth bs bm ms = Some (Inr (bs', bm'), e', board)
      \<and> ((bm = None \<and> ms = [] \<and> bm' = None \<and> bs' = PInf)
         \<or> (\<exists>m s. bm' = Some m \<and> m \<in> S \<union> set ms \<and> bs' = Fin s
               \<and> tt e' (cache_key_of B (push B board m) (depth - 1)) = Some s))"
proof (induction ms arbitrary: e bs bm S)
  case Nil
  then show ?case by auto
next
  case (Cons mv rest)
  obtain sc e1 where c: "minimax fuel B e (push B board mv) (depth - 1) NInf PInf
      = Some (Inr sc, e1, push B board mv)"
    using mm by blast
  have p: "pop B (push B board mv) = Some board"
    using u by (simp add: undo_ok_def)
  have st: "tt e1 (cache_key_of B (push B board mv) (depth - 1)) = Some sc"
    using c by (rule minimax_stored)
  have g: "cache_grows (depth - 1) e e1"
    using minimax_grows [OF c] by simp
  let ?bs = "if xlt (Fin sc) bs then Fin sc else bs"
  let ?bm = "if xlt (Fin sc) bs then Some mv else bm"
  have inv: "(?bm = None \<and> ?bs = PInf)
      \<or> (\<exists>m s. ?bm = Some m \<and> m \<in> insert mv S \<and> ?bs = Fin s
            \<and> tt e1 (cache_key_of B (push B board m) (depth - 1)) = Some s)"
  proof (cases "xlt (Fin sc) bs")
    case True
    then show ?thesis using st by simp
  next
    case False
    then have "bs \<noteq> PInf" by auto
    then obtain m s where "bm = Some m" "m \<in> S" "bs = Fin s"
      "tt e (cache_key_of B (push B board m) (depth - 1)) = Some s"
      using Cons.prems by blast
    then show ?thesis using False cache_grows_keep [OF g] by simp
  qed
  have step: "root_loop_black fuel B e board depth bs bm (mv # rest)
      = root_loop_black fuel B e1 board depth ?bs ?bm rest"
    using c p by simp
  obtain bs' bm' e' where r:
    "root_loop_black fuel B e1 board depth ?bs ?bm rest = Some (Inr (bs', bm'), e', board)"
    "(?bm = None \<and> rest = [] \<and> bm' = None \<and> bs' = PInf)
      \<or> (\<exists>m s. bm' = Some m \<and> m \<in> insert mv S \<union> set rest \<and> bs' = Fin s
            \<and> tt e' (cache_key_of B (push B board m) (depth - 1)) = Some s)"
    using Cons.IH [OF inv] by blast
  have "?bm \<noteq> None"
  proof (cases "xlt (Fin sc) bs")
    case True
    then show ?thesis by simp
  next
    case False
    then have "bs \<noteq> PInf" by auto
    then show ?thesis using Cons.prems False by auto
  qed
  then have "\<exists>m s. bm' = Some m \<and> m \<in> S \<union> set (mv # rest) \<and> bs' = Fin s
            \<and> tt e' (cache_key_of B (push B board m) (depth - 1)) = Some s"
    using r(2) by auto
  then show ?case using step r(1) by auto
qed

lemma root_loop_white_chosen:
  assumes u: "undo_ok B"
  shows "root_loop_white fuel B e board depth bs bm ms = Some (Inr (bs', bm'), e', board')
    \<Longrightarrow> (bs' = bs \<and> bm' = bm)
      \<or> (\<exists>pre mv post bs1 bm1 e1 e2 s. ms = pre @ mv # post
            \<and> root_loop_white fuel B e board depth bs bm pre = Some (Inr (bs1, bm1), e1, board)
            \<and> minimax fuel B e1 (push B board mv) (depth - 1) NInf PInf
                = Some (Inr s, e2, push B board mv)
            \<and> xlt bs1 (Fin s) \<and> bs' = Fin s \<and> bm' = Some mv)"
proof (induction ms arbitrary: e bs bm)
  case Nil
  then show ?case by simp
next
  case (Cons m rest)
  from Cons.prems show ?case
  proof (cases rule: root_loop_white_step)
    case (continue sc e1 b1 b2)
    have b1: "b1 = push B board m" using continue(1) minimax_board [OF u] by blast
    then have b2: "b2 = board" using continue(2) u by (simp add: undo_ok_def)
    let ?bs = "if xlt bs (Fin sc) then Fin sc else bs"
    let ?bm = "if xlt bs (Fin sc) then Some m else bm"
    have step: "root_loop_white fuel B e board depth bs bm (m # xs)
        = root_loop_white fuel B e1 board depth ?bs ?bm xs" for xs
      using continue(1,2) b1 b2 by simp
    from Cons.IH [OF continue(3) [unfolded b2]]
    consider (same) "bs' = ?bs" "bm' = ?bm"
      | (later) pre mv post bs1 bm1 e3 e4 s where "rest = pre @ mv # post"
          "root_loop_white fuel B e1 board depth ?bs ?bm pre = Some (Inr (bs1, bm1), e3, board)"
          "minimax fuel B e3 (push B board mv) (depth - 1) NInf PInf
             = Some (Inr s, e4, push B board mv)"
          "xlt bs1 (Fin s)" "bs' = Fin s" "bm' = Some mv"
      by blast
    then show ?thesis
    proof cases
      case same
      show ?thesis
      proof (cases "xlt bs (Fin sc)")
        case True
        have "m # rest = [] @ m # rest" by simp
        moreover have "root_loop_white fuel B e board depth bs bm [] = Some (Inr (bs, bm), e, board)"
          by simp
        moreover have "minimax fuel B e (push B board m) (depth - 1) NInf PInf
            = Some (Inr sc, e1, push B board m)"
          using continue(1) b1 by simp
        moreover have "bs' = Fin sc" "bm' = Some m" using same True by simp_all
        ultimately show ?thesis using True by blast
      next
        case False
        then show ?thesis using same by simp
      qed
    next
      case later
      have "m # rest = (m # pre) @ mv # post" using later(1) by simp
      moreover have "root_loop_white fuel B e board depth bs bm (m # pre)
          = Some (Inr (bs1, bm1), e3, board)"
        using later(2) step by simp
      ultimately show ?thesis using later(3-6) by blast
    qed
  qed simp_all
qed

lemma root_loop_black_chosen:
  assumes u: "undo_ok B"
  shows "root_loop_black fuel B e board depth bs bm ms = Some (Inr (bs', bm'), e', board')
    \<Longrightarrow> (bs' = bs \<and> bm' = bm)
      \<or> (\<exists>pre mv post bs1 bm1 e1 e2 s. ms = pre @ mv # post
            \<and> root_loop_black fuel B e board depth bs bm pre = Some (Inr (bs1, bm1), e1, board)
            \<and> minimax fuel B e1 (push B board mv) (depth - 1) NInf PInf
                = Some (Inr s, e2, push B board mv)
            \<and> xlt (Fin s) bs1 \<and> bs' = Fin s \<and> bm' = Some mv)"
proof (induction ms arbitrary: e bs bm)
  case Nil
  then show ?case by simp
next
  case (Cons m rest)
  from Cons.prems show ?case
  proof (cases rule: root_loop_black_step)
    case (continue sc e1 b1 b2)
    have b1: "b1 = push B board m" using continue(1) minimax_board [OF u] by blast
    then have b2: "b2 = board" using continue(2) u by (simp add: undo_ok_def)
    let ?bs = "if xlt (Fin sc) bs then Fin sc else bs"
    let ?bm = "if xlt (Fin sc) bs then Some m else bm"
    have step: "root_loop_black fuel B e board depth bs bm (m # xs)
        = root_loop_black fuel B e1 board depth ?bs ?bm xs" for xs
      using continue(1,2) b1 b2 by simp
    from Cons.IH [OF continue(3) [unfolded b2]]
    consider (same) "bs' = ?bs" "bm' = ?bm"
      | (later) pre mv post bs1 bm1 e3 e4 s where "rest = pre @ mv # post"
          "root_loop_black fuel B e1 board depth ?bs ?bm pre = Some (Inr (bs1, bm1), e3, board)"
          "minimax fuel B e3 (push B board mv) (depth - 1) NInf PInf
             = Some (Inr s, e4, push B board mv)"
          "xlt (Fin s) bs1" "bs' = Fin s" "bm' = Some mv"
      by blast
    then show ?thesis
    proof cases
      case same
      show ?thesis
      proof (cases "xlt (Fin sc) bs")
        case True
        have "m # rest = [] @ m # rest" by simp
        moreover have "root_loop_black fuel B e board depth bs bm [] = Some (Inr (bs, bm), e, board)"
          by simp
        moreover have "minimax fuel B e (push B board m) (depth - 1) NInf PInf
            = Some (Inr sc, e1, push B board m)"
          using continue(1) b1 by simp
        moreover have "bs' = Fin sc" "bm' = Some m" using same True by simp_all
        ultimately show ?thesis using True by blast
      next
        case False
        then show ?thesis using same by simp
      qed
    next
      case later
      have "m # rest = (m # pre) @ mv # post" using later(1) by simp
      moreover have "root_loop_black fuel B e board depth bs bm (m # pre)
          = Some (Inr (bs1, bm1), e3, board)"
        using later(2) step by simp
      ultimately show ?thesis using later(3-6) by blast
    qed
  qed simp_all
qed

lemma minimax_hit:
  "tt e (cache_key_of B board depth) = Some v \<Longrightarrow>
   minimax (Suc n) B e board depth alpha beta = Some (Inr v, e\<lparr>nodes := nodes e + 1\<rparr>, board)"
  by (simp add: Let_def)


text \<open>
  What \<open>best_move\<close> returns on a position with a legal move, for a depth of at least 1:
  a legal move, and as its score the value that the \<open>minimax\<close> call on that move's
  position returned in the loop, from the engine as the moves before it left it.
\<close>

lemma best_move_chosen:
  assumes u: "undo_ok B" and w: "moves_or_over B"
    and d: "1 \<le> depth" and f: "depth \<le> int fuel"
    and l: "legal_moves B board \<noteq> []"
  shows "\<exists>mv s e' pre post bs1 bm1 e1 e2.
      best_move fuel B e board depth = Some (Inr \<lparr>score = s, move = Some mv\<rparr>, e', board)
      \<and> mv \<in> set (legal_moves B board)
      \<and> sort_key (\<lambda>m. - key_score B board m) (legal_moves B board) = pre @ mv # post
      \<and> (if turn B board
          then root_loop_white fuel B (e\<lparr>nodes := 0\<rparr>) board depth NInf None pre
          else root_loop_black fuel B (e\<lparr>nodes := 0\<rparr>) board depth PInf None pre)
         = Some (Inr (bs1, bm1), e1, board)
      \<and> minimax fuel B e1 (push B board mv) (depth - 1) NInf PInf
          = Some (Inr s, e2, push B board mv)
      \<and> (\<forall>m. legal_moves B board = [m] \<longrightarrow> mv = m)"
proof -
  let ?e0 = "e\<lparr>nodes := 0\<rparr>"
  let ?ms = "sort_key (\<lambda>m. - key_score B board m) (legal_moves B board)"
  have mo: "move_ordering B board = (Inr ?ms, board)"
    using u by (rule move_ordering_undo)
  have ne: "?ms \<noteq> []" using l by (rule sorted_moves_nonempty)
  have mm: "\<forall>e board alpha beta. \<exists>v e'.
      minimax fuel B e board (depth - 1) alpha beta = Some (Inr v, e', board)"
    using minimax_total [OF u w, of "depth - 1" fuel] d f by simp
  let ?l = "(if turn B board
      then root_loop_white fuel B ?e0 board depth NInf None ?ms
      else root_loop_black fuel B ?e0 board depth PInf None ?ms)"
  have "\<exists>bs' e' m s. ?l = Some (Inr (bs', Some m), e', board) \<and> m \<in> set ?ms \<and> bs' = Fin s"
  proof (cases "turn B board")
    case True
    then show ?thesis
      using root_loop_white_result [OF u mm, of None NInf "{}" ?e0 board ?ms] ne by auto
  next
    case False
    then show ?thesis
      using root_loop_black_result [OF u mm, of None PInf "{}" ?e0 board ?ms] ne by auto
  qed
  then obtain e' m s where r: "?l = Some (Inr (Fin s, Some m), e', board)" "m \<in> set ?ms"
    by blast
  have bm: "best_move fuel B e board depth = Some (Inr \<lparr>score = s, move = Some m\<rparr>, e', board)"
  proof (cases "turn B board")
    case True
    then show ?thesis using mo r(1) by (simp add: best_move_def Let_def)
  next
    case False
    then show ?thesis using mo r(1) by (simp add: best_move_def Let_def)
  qed
  have mem: "m \<in> set (legal_moves B board)" using r(2) by simp
  have call: "\<exists>pre post bs1 bm1 e1 e2. ?ms = pre @ m # post
      \<and> (if turn B board
          then root_loop_white fuel B ?e0 board depth NInf None pre
          else root_loop_black fuel B ?e0 board depth PInf None pre)
         = Some (Inr (bs1, bm1), e1, board)
      \<and> minimax fuel B e1 (push B board m) (depth - 1) NInf PInf
          = Some (Inr s, e2, push B board m)"
  proof (cases "turn B board")
    case True
    then have "root_loop_white fuel B ?e0 board depth NInf None ?ms
        = Some (Inr (Fin s, Some m), e', board)"
      using r(1) by simp
    from root_loop_white_chosen [OF u this] True show ?thesis by auto
  next
    case False
    then have "root_loop_black fuel B ?e0 board depth PInf None ?ms
        = Some (Inr (Fin s, Some m), e', board)"
      using r(1) by simp
    from root_loop_black_chosen [OF u this] False show ?thesis by auto
  qed
  have one: "\<forall>m'. legal_moves B board = [m'] \<longrightarrow> m = m'"
    using mem by auto
  from bm mem call one show ?thesis by blast
qed

lemma best_move_no_moves:
  assumes "legal_moves B board = []"
  shows "best_move fuel B e board depth = Some (Inl OverflowError, e\<lparr>nodes := 0\<rparr>, board)"
  using assms by (simp add: best_move_def move_ordering_def sort_reverse_def Let_def)

section \<open>The claims about the search\<close>

text \<open>
  C7. On a board whose pop undoes its push, each of \<open>key\<close> (the check probe of
  \<open>move_ordering\<close>), \<open>move_ordering\<close>, \<open>minimax\<close> and \<open>best_move\<close>, for every depth and
  window, leaves on normal return exactly the board it was given: every push has been
  undone, also where a loop stops at a cutoff.
\<close>

theorem board_restored:
  assumes "undo_ok B"
  shows "(key B board mv = (Inr s, board1) \<longrightarrow> board1 = board)
    \<and> (move_ordering B board = (Inr ms, board2) \<longrightarrow> board2 = board)
    \<and> (minimax fuel B e board depth alpha beta = Some (Inr v, e3, board3) \<longrightarrow> board3 = board)
    \<and> (best_move fuel B e board depth = Some (Inr r, e4, board4) \<longrightarrow> board4 = board)"
  using assms key_undo [OF assms, of board mv] move_ordering_undo [OF assms, of board]
    minimax_board [OF assms] best_move_board [OF assms]
  by auto

theorem board_restored_witness:
  "undo_ok tgame
   \<and> map_option (\<lambda>r. (fst r, snd (snd r))) (minimax 4 tgame new_engine (0, []) 3 NInf PInf)
       = Some (Inr 498, (0, []))
   \<and> map_option (\<lambda>r. (fst r, snd (snd r))) (best_move 4 tgame new_engine (0, []) 3)
       = Some (Inr \<lparr>score = 498, move = Some (quiet 0 2)\<rparr>, (0, []))
   \<and> key tgame (0, []) (quiet 0 1) = (Inr 0, (0, []))
   \<and> move_ordering tgame (0, []) = (Inr [quiet 0 1, quiet 0 2], (0, []))"
proof -
  have u: "undo_ok tgame"
    by (simp add: tgame_def table_undo_ok)
  have "map_option fst (minimax 4 tgame new_engine (0, []) 3 NInf PInf) = Some (Inr 498)"
    by code_simp
  then obtain e3 b3 where m: "minimax 4 tgame new_engine (0, []) 3 NInf PInf = Some (Inr 498, e3, b3)"
    by auto
  have "map_option fst (best_move 4 tgame new_engine (0, []) 3)
      = Some (Inr \<lparr>score = 498, move = Some (quiet 0 2)\<rparr>)"
    by code_simp
  then obtain e4 b4 where b: "best_move 4 tgame new_engine (0, []) 3
      = Some (Inr \<lparr>score = 498, move = Some (quiet 0 2)\<rparr>, e4, b4)"
    by auto
  have "fst (key tgame (0, []) (quiet 0 1)) = Inr 0"
    by code_simp
  then obtain b1 where k: "key tgame (0, []) (quiet 0 1) = (Inr 0, b1)"
    by (cases "key tgame (0, []) (quiet 0 1)") auto
  have "fst (move_ordering tgame (0, [])) = Inr [quiet 0 1, quiet 0 2]"
    by code_simp
  then obtain b2 where o: "move_ordering tgame (0, []) = (Inr [quiet 0 1, quiet 0 2], b2)"
    by (cases "move_ordering tgame (0, [])") auto
  have "b1 = (0, []) \<and> b2 = (0, []) \<and> b3 = (0, []) \<and> b4 = (0, [])"
    using board_restored [OF u, of "(0, [])" "quiet 0 1" 0 b1 "[quiet 0 1, quiet 0 2]" b2
        4 new_engine 3 NInf PInf 498 e3 b3 "\<lparr>score = 498, move = Some (quiet 0 2)\<rparr>" e4 b4]
      m b k o
    by simp
  then show ?thesis
    using u m b k o by simp
qed

text \<open>
  C9. Over every sequence of \<open>minimax\<close> and \<open>best_move\<close> calls on one engine instance, on
  any boards, depths and windows, an entry of the transposition cache stays as it is:
  a key that is mapped to a score before the calls is mapped to the same score after
  them. No call removes an entry or overwrites it with another value, also not a call
  that raises, and the entries persist from one \<open>best_move\<close> call to the next.
\<close>

theorem cache_write_once:
  "run_calls fuel B e calls = Some e' \<Longrightarrow> tt e k = Some v \<Longrightarrow> tt e' k = Some v"
  by (rule run_calls_keep)

theorem cache_write_once_witness:
  "tt primed_engine (4, 1, True) = Some 498
   \<and> map_option (\<lambda>e'. (nodes e', tt e' (4, 1, True)))
       (run_calls 4 tgame primed_engine [BestMove (0, []) 2, Minimax (2, []) 2 NInf PInf])
     = Some (6, Some 498)"
proof -
  have h: "tt primed_engine (4, 1, True) = Some 498"
    by code_simp
  have "map_option nodes
      (run_calls 4 tgame primed_engine [BestMove (0, []) 2, Minimax (2, []) 2 NInf PInf]) = Some 6"
    by code_simp
  then obtain e' where
    r: "run_calls 4 tgame primed_engine [BestMove (0, []) 2, Minimax (2, []) 2 NInf PInf] = Some e'"
    and n: "nodes e' = 6"
    by auto
  have "tt e' (4, 1, True) = Some 498"
    using cache_write_once [OF r h] .
  then show ?thesis
    using h r n by simp
qed

text \<open>
  C4 (as amended). After a \<open>minimax\<close> call has returned a score for a board and depth, a
  second \<open>minimax\<close> call on that engine with the same cache key (same position identity,
  depth and side to move), with any window and any fuel but none, returns exactly that
  score, leaves the cache and the board as they are, visits no further node, and adds
  exactly one to the node counter: the re-queried node itself is counted.
\<close>

theorem cache_hit_requery:
  assumes "minimax fuel B e board depth alpha beta = Some (Inr v, e1, board1)"
    and "cache_key_of B board2 depth = cache_key_of B board depth"
  shows "minimax (Suc n) B e1 board2 depth alpha2 beta2
    = Some (Inr v, e1\<lparr>nodes := nodes e1 + 1\<rparr>, board2)"
proof -
  have "tt e1 (cache_key_of B board2 depth) = Some v"
    using minimax_stored [OF assms(1)] assms(2) by simp
  then show ?thesis by (rule minimax_hit)
qed

theorem cache_hit_requery_witness:
  "map_option (\<lambda>r. (fst r, snd (snd r))) (minimax 4 tgame new_engine (0, []) 3 NInf PInf)
     = Some (Inr 498, (0, []))
   \<and> cache_key_of tgame (0, [7]) 3 = cache_key_of tgame (0, []) 3
   \<and> minimax 1 tgame primed_engine (0, [7]) 3 (Fin 0) (Fin 1)
     = Some (Inr 498, primed_engine\<lparr>nodes := nodes primed_engine + 1\<rparr>, (0, [7]))"
proof -
  have p: "map_option (\<lambda>r. (fst r, snd (snd r))) (minimax 4 tgame new_engine (0, []) 3 NInf PInf)
      = Some (Inr 498, (0, []))"
    by code_simp
  then obtain e1 where m: "minimax 4 tgame new_engine (0, []) 3 NInf PInf = Some (Inr 498, e1, (0, []))"
    by auto
  then have e1: "primed_engine = e1"
    by (simp add: primed_engine_def)
  have k: "cache_key_of tgame (0, [7]) 3 = cache_key_of tgame (0, []) 3"
    by (simp add: cache_key_of_def tgame_def table_api_def)
  have "minimax (Suc 0) tgame e1 (0, [7]) 3 (Fin 0) (Fin 1)
      = Some (Inr 498, e1\<lparr>nodes := nodes e1 + 1\<rparr>, (0, [7]))"
    using m k by (rule cache_hit_requery)
  then show ?thesis
    using p k e1 by simp
qed

text \<open>
  The claim as written fails: the node counter is incremented before the cache is
  consulted, so it does increase on the re-query. After the first search of the
  transposition game the counter is 8; the same call again is answered from the cache
  and leaves it at 9.
\<close>

theorem cache_hit_requery_counterexample:
  "nodes primed_engine = 8
   \<and> map_option (\<lambda>r. (fst r, nodes (fst (snd r))))
       (minimax 4 tgame primed_engine (0, []) 3 NInf PInf) = Some (Inr 498, 9)"
  by code_simp

text \<open>
  C10. The claim: on a position with a legal move and a depth of at least 1, \<open>best_move\<close>
  returns a legal move and, as its score, the minimax value at depth - 1 of the position
  that move reaches. The code returns a legal move, and the single one when there is
  only one (lemma \<open>best_move_chosen\<close>), but not that score: the \<open>minimax\<close> call of the
  root loop can be answered from a cache entry that a cutoff left behind. In the
  transposition game, to depth 3 from an empty cache, \<open>best_move\<close> returns the move to
  position 2 with the score 498, the entry stored for position 4 below position 1; the
  value of position 2 at depth 2 is 893, by plain minimax and by \<open>minimax\<close> itself on an
  engine with an empty cache.
\<close>

theorem best_move_score_differs:
  "map_option fst (best_move 4 tgame new_engine (0, []) 3)
     = Some (Inr \<lparr>score = 498, move = Some (quiet 0 2)\<rparr>)
   \<and> push tgame (0, []) (quiet 0 2) = (2, [0])
   \<and> plain_minimax tgame (2, [0]) 2 = Fin 893
   \<and> map_option fst (minimax 3 tgame new_engine (2, [0]) 2 NInf PInf) = Some (Inr 893)"
  by code_simp

text \<open>
  C1. The claim: the score of \<open>minimax\<close>, with pruning and the cache, is that of plain
  minimax to the same depth. The code does not keep it. In the transposition game,
  position 4 is first searched below position 1 inside the window (-inf, 148): its first
  child scores 498, the loop stops at the cutoff, and 498 is stored for position 4 at
  depth 1 as if it were its value, which is 893. Below position 2 the same key is found
  in the cache and 498 is returned with the full window. The search of position 0 to
  depth 3, from an empty cache and with the full window, returns 498; plain minimax
  gives 893.
\<close>

theorem minimax_differs_from_plain:
  "map_option fst (minimax 4 tgame new_engine (0, []) 3 NInf PInf) = Some (Inr 498)
   \<and> plain_minimax tgame (0, []) 3 = Fin 893
   \<and> plain_minimax tgame (4, []) 1 = Fin 893
   \<and> tt primed_engine (cache_key_of tgame (4, []) 1) = Some 498"
  by code_simp

text \<open>
  C2. The claim: on a position without legal moves \<open>best_move\<close> returns a result with
  no move and the score of \<open>evaluate\<close>. The code does not: no pass of the loop runs,
  \<open>best_score\<close> is still the float infinity, and \<open>int(best_score)\<close> raises OverflowError
  (lemma \<open>best_move_no_moves\<close>, for every such board). Here on the stalemate, where
  \<open>evaluate\<close> is 0.
\<close>

theorem best_move_stalemate_raises:
  "legal_moves endings (1, []) = [] \<and> is_stalemate endings (1, [])
   \<and> evaluate endings (1, []) = 0
   \<and> map_option fst (best_move 4 endings new_engine (1, []) 3) = Some (Inl OverflowError)"
  by code_simp

end
